theory Spec2Isabelle
  imports Main "HOL-Library.AList"
begin

section \<open>The directory monitor: data\<close>

text \<open>
  The program is \<^verbatim>\<open>directory-monitor.py\<close>. A \<^verbatim>\<open>FileProcessor\<close> receives the file system
  notifications of watchdog in \<^verbatim>\<open>on_any_event\<close> and stages the files it hears of in the
  module-level dictionary \<^verbatim>\<open>FILE_QUEUE\<close>; its thread \<^verbatim>\<open>process_file\<close> goes through the
  dictionary once a second and decides, from two equal sizes, that a file is complete.

  Time stamps (\<^verbatim>\<open>datetime\<close>) are integers: the microseconds since \<^verbatim>\<open>datetime.min\<close>.
  File sizes are Python integers. Paths are strings.

  A call of the handler and a turn of the thread's loop are steps on the state of the
  process, taken one after the other; what they read from outside (the clock, the file
  system) is an argument of each step.
\<close>

record FileQueueItem =
  file_path :: string
  file_size :: int
  file_name :: string
  file_extention :: string
  next_poll :: int

text \<open>
  A watchdog event, with the three attributes the handler reads.
\<close>

record event =
  is_directory :: bool
  event_type :: string
  src_path :: string

text \<open>
  The exceptions that the statements of the program can raise: \<^verbatim>\<open>os.path.getsize\<close> on a
  path that cannot be examined, \<^verbatim>\<open>timedelta\<close> and \<^verbatim>\<open>datetime + timedelta\<close> out of range,
  \<^verbatim>\<open>dict.pop\<close> of a missing key, and the iteration of \<^verbatim>\<open>None\<close>.
\<close>

datatype error = OSError string | OverflowError | KeyError string | TypeError

text \<open>
  Neither function has a \<^verbatim>\<open>try\<close>: an exception leaves through the caller, and what was
  written to the dictionary and to the log before it stays written. An outcome therefore
  carries the state in both cases.
\<close>

datatype 'a outcome = Returns 'a | Raises error 'a

primrec state_of :: "'a outcome \<Rightarrow> 'a" where
  "state_of (Returns s) = s"
| "state_of (Raises e s) = s"

primrec raised :: "'a outcome \<Rightarrow> error option" where
  "raised (Returns s) = None"
| "raised (Raises e s) = Some e"

text \<open>
  The four messages given to \<^verbatim>\<open>logger\<close>, each with the path it is formatted with:
  \<^verbatim>\<open>'%s' updated.  Adding to queue\<close>, \<^verbatim>\<open>'%s' is ready for processing\<close>,
  \<^verbatim>\<open>Adding monitor to '%s'\<close> and \<^verbatim>\<open>Directory '%s' does not exist.  Skipping for monitor\<close>.
\<close>

datatype log_line =
    Info_adding_to_queue string
  | Info_ready_for_processing string
  | Info_adding_monitor string
  | Error_does_not_exist string

text \<open>
  The state of the process: the dictionary \<^verbatim>\<open>FILE_QUEUE\<close> in insertion order (the order
  in which Python iterates it), the lines logged so far, oldest first, and the directories
  for which a \<^verbatim>\<open>DirectoryWatcher\<close> has scheduled and started an observer.
\<close>

record monitor =
  FILE_QUEUE :: "(string \<times> FileQueueItem) list"
  logger :: "log_line list"
  observers :: "string list"

text \<open>
  What the program reads from outside at one moment: the clock (\<^verbatim>\<open>datetime.datetime.now()\<close>),
  the size of the file at a path (\<^verbatim>\<open>os.path.getsize\<close>, \<open>None\<close> when it raises
  \<^verbatim>\<open>OSError\<close>) and whether a path exists (\<^verbatim>\<open>os.path.exists\<close>).
\<close>

record world =
  now :: int
  getsize :: "string \<Rightarrow> int option"
  path_exists :: "string \<Rightarrow> bool"

text \<open>
  The pure string functions of the library that the handler calls: \<^verbatim>\<open>os.path.basename\<close>,
  \<^verbatim>\<open>os.path.splitext\<close> and \<^verbatim>\<open>str.lower\<close>. They are a parameter of the model, so that
  every theorem holds for whatever the platform's library computes.
\<close>

record os_path =
  basename :: "string \<Rightarrow> string"
  splitext :: "string \<Rightarrow> string \<times> string"
  lower :: "string \<Rightarrow> string"

section \<open>Library operations\<close>

text \<open>
  \<^verbatim>\<open>timedelta(seconds = n)\<close> normalises to days, seconds and microseconds and raises
  \<^verbatim>\<open>OverflowError\<close> when the days exceed 999999999 in magnitude. The value is the length
  in microseconds.
\<close>

definition timedelta :: "int \<Rightarrow> int option" where
  "timedelta seconds =
     (if - 999999999 \<le> seconds div 86400 \<and> seconds div 86400 \<le> 999999999
      then Some (seconds * 1000000) else None)"

text \<open>
  \<^verbatim>\<open>datetime.max\<close> is the last microsecond of the year 9999; a sum outside
  \<^verbatim>\<open>datetime.min .. datetime.max\<close> raises \<^verbatim>\<open>OverflowError\<close>.
\<close>

definition datetime_max :: int where
  "datetime_max = 315537897599999999"

definition datetime_add :: "int \<Rightarrow> int \<Rightarrow> int option" where
  "datetime_add t d = (if 0 \<le> t + d \<and> t + d \<le> datetime_max then Some (t + d) else None)"

text \<open>
  The expression \<^verbatim>\<open>t + timedelta(seconds = polling_time_secs)\<close> of lines 102 and 128;
  \<open>None\<close> is \<^verbatim>\<open>OverflowError\<close>.
\<close>

definition plus_polling_time :: "int \<Rightarrow> int \<Rightarrow> int option" where
  "plus_polling_time t polling_time_secs =
     (case timedelta polling_time_secs of
        None \<Rightarrow> None
      | Some d \<Rightarrow> datetime_add t d)"

text \<open>
  \<^verbatim>\<open>FILE_QUEUE.pop(key)\<close>: the dictionary without the key; \<open>None\<close> is \<^verbatim>\<open>KeyError\<close>.
  The assignment \<^verbatim>\<open>FILE_QUEUE[key] = value\<close> is \<^const>\<open>AList.update\<close> (a key already
  there keeps its place, a new key goes last) and \<^verbatim>\<open>key in FILE_QUEUE\<close> is a look-up
  with \<^const>\<open>map_of\<close>.
\<close>

definition dict_pop :: "'k \<Rightarrow> ('k \<times> 'v) list \<Rightarrow> ('k \<times> 'v) list option" where
  "dict_pop k d = (case map_of d k of None \<Rightarrow> None | Some v \<Rightarrow> Some (AList.delete k d))"

section \<open>The event handler\<close>

text \<open>
  \<^verbatim>\<open>FileProcessor.on_any_event\<close> (lines 81 to 105). The line
  \<^verbatim>\<open>Adding to queue\<close> is logged before the size is read, so it is in the log also when
  \<^verbatim>\<open>os.path.getsize\<close> raises.
\<close>

definition on_any_event ::
  "os_path \<Rightarrow> world \<Rightarrow> int \<Rightarrow> event \<Rightarrow> monitor \<Rightarrow> monitor outcome" where
  "on_any_event lib w polling_time_secs ev s =
     (if is_directory ev \<or> event_type ev \<noteq> ''modified'' then Returns s
      else if map_of (FILE_QUEUE s) (src_path ev) \<noteq> None then Returns s
      else
        let s1 = s\<lparr>logger := logger s @ [Info_adding_to_queue (src_path ev)]\<rparr>;
            file_extension = snd (splitext lib (src_path ev))
        in case getsize w (src_path ev) of
             None \<Rightarrow> Raises (OSError (src_path ev)) s1
           | Some measured \<Rightarrow>
               (case plus_polling_time (now w) polling_time_secs of
                  None \<Rightarrow> Raises OverflowError s1
                | Some t \<Rightarrow>
                    Returns (s1\<lparr>FILE_QUEUE :=
                      AList.update (src_path ev)
                        \<lparr>file_path = src_path ev,
                         file_size = measured,
                         file_name = basename lib (src_path ev),
                         file_extention = lower lib file_extension,
                         next_poll = t\<rparr>
                        (FILE_QUEUE s1)\<rparr>)))"

section \<open>The polling thread\<close>

text \<open>
  The body of the \<^verbatim>\<open>for\<close> loop of \<^verbatim>\<open>process_file\<close> (lines 114 to 136) for one entry
  \<^verbatim>\<open>(queue_file_path, queued_file)\<close> of the copy \<^verbatim>\<open>current_items\<close>, on the live
  dictionary in \<open>s\<close>. \<^verbatim>\<open>dict(FILE_QUEUE)\<close> copies the dictionary, not the items: line 127
  writes the new size into the object that the live dictionary holds too, so the size stays
  written when line 128 raises.
\<close>

definition check_queued_file ::
  "world \<Rightarrow> int \<Rightarrow> string \<times> FileQueueItem \<Rightarrow> monitor \<Rightarrow> monitor outcome" where
  "check_queued_file w polling_time_secs entry s =
     (let queue_file_path = fst entry; queued_file = snd entry in
      if next_poll queued_file > now w then Returns s
      else
        case getsize w queue_file_path of
          None \<Rightarrow> Raises (OSError queue_file_path) s
        | Some current_file_size \<Rightarrow>
            if current_file_size \<noteq> file_size queued_file then
              (case plus_polling_time (now w) polling_time_secs of
                 None \<Rightarrow>
                   Raises OverflowError
                     (s\<lparr>FILE_QUEUE :=
                        AList.map_entry queue_file_path
                          (\<lambda>item. item\<lparr>file_size := current_file_size\<rparr>) (FILE_QUEUE s)\<rparr>)
               | Some t \<Rightarrow>
                   Returns
                     (s\<lparr>FILE_QUEUE :=
                        AList.update queue_file_path
                          (queued_file\<lparr>file_size := current_file_size, next_poll := t\<rparr>)
                          (FILE_QUEUE s)\<rparr>))
            else
              (case dict_pop queue_file_path (FILE_QUEUE s) of
                 None \<Rightarrow> Raises (KeyError queue_file_path) s
               | Some q \<Rightarrow>
                   Returns
                     (s\<lparr>FILE_QUEUE := q,
                        logger := logger s @ [Info_ready_for_processing (file_path queued_file)]\<rparr>)))"

text \<open>
  The \<^verbatim>\<open>for\<close> loop over \<^verbatim>\<open>current_items\<close>: an exception in one entry ends the loop.
\<close>

primrec for_current_items ::
  "world \<Rightarrow> int \<Rightarrow> (string \<times> FileQueueItem) list \<Rightarrow> monitor \<Rightarrow> monitor outcome" where
  "for_current_items w polling_time_secs [] s = Returns s"
| "for_current_items w polling_time_secs (entry # entries) s =
     (case check_queued_file w polling_time_secs entry s of
        Returns s' \<Rightarrow> for_current_items w polling_time_secs entries s'
      | Raises e s' \<Rightarrow> Raises e s')"

text \<open>
  One turn of the \<^verbatim>\<open>while True\<close> of \<^verbatim>\<open>process_file\<close> (lines 112 to 136): the clock is
  read once, the dictionary is copied, the copy is gone through.
\<close>

definition process_file_pass :: "world \<Rightarrow> int \<Rightarrow> monitor \<Rightarrow> monitor outcome" where
  "process_file_pass w polling_time_secs s =
     for_current_items w polling_time_secs (FILE_QUEUE s) s"

text \<open>
  \<^verbatim>\<open>process_file\<close>: the loop has no exit, so it runs for as many turns as the list of
  worlds is long, one world per turn. \<open>Returns s\<close> is the state after these turns, with
  the thread still in its loop; \<open>Raises e s\<close> is the state in which the exception \<open>e\<close> left
  the loop and ended the thread, the turns that remained not run.
\<close>

primrec process_file :: "int \<Rightarrow> world list \<Rightarrow> monitor \<Rightarrow> monitor outcome" where
  "process_file polling_time_secs [] s = Returns s"
| "process_file polling_time_secs (w # ws) s =
     (case process_file_pass w polling_time_secs s of
        Returns s' \<Rightarrow> process_file polling_time_secs ws s'
      | Raises e s' \<Rightarrow> Raises e s')"

section \<open>Start-up\<close>

text \<open>
  \<^verbatim>\<open>DirectoryWatcher(directory, call_back)\<close> schedules a recursive observer for the
  directory and starts it. The observer is watchdog's; it is taken to start.
\<close>

definition DirectoryWatcher :: "string \<Rightarrow> monitor \<Rightarrow> monitor" where
  "DirectoryWatcher monitor_directory s = s\<lparr>observers := observers s @ [monitor_directory]\<rparr>"

text \<open>
  The \<^verbatim>\<open>for\<close> loop of \<^verbatim>\<open>main\<close> (lines 147 to 152).
\<close>

primrec monitor_directories :: "world \<Rightarrow> string list \<Rightarrow> monitor \<Rightarrow> monitor" where
  "monitor_directories w [] s = s"
| "monitor_directories w (directory # directories) s =
     monitor_directories w directories
       (if path_exists w directory
        then (DirectoryWatcher directory s)
               \<lparr>logger := logger (DirectoryWatcher directory s) @ [Info_adding_monitor directory]\<rparr>
        else s\<lparr>logger := logger s @ [Error_does_not_exist directory]\<rparr>)"

text \<open>
  \<^verbatim>\<open>main\<close>, up to its last loop. \<^verbatim>\<open>args.directories_to_monitor\<close> is \<^verbatim>\<open>None\<close> when the
  option is not on the command line, and iterating \<^verbatim>\<open>None\<close> raises \<^verbatim>\<open>TypeError\<close>.
  \<open>Returns s\<close> is the state in which \<^verbatim>\<open>main\<close> reaches line 155, where it sleeps for ever
  and changes nothing.
\<close>

definition main :: "world \<Rightarrow> string list option \<Rightarrow> monitor \<Rightarrow> monitor outcome" where
  "main w directories_to_monitor s =
     (case directories_to_monitor of
        None \<Rightarrow> Raises TypeError s
      | Some directories \<Rightarrow> Returns (monitor_directories w directories s))"

text \<open>
  The state of a process that has just started: an empty dictionary, nothing logged, no
  observer.
\<close>

definition initial :: monitor where
  "initial = \<lparr>FILE_QUEUE = [], logger = [], observers = []\<rparr>"

text \<open>
  The states that a process with the polling time \<open>p\<close> reaches: from the start, by calls
  of the handler, turns of the polling thread and the loop of \<^verbatim>\<open>main\<close>, in any order and in
  any world.
\<close>

inductive reachable :: "os_path \<Rightarrow> int \<Rightarrow> monitor \<Rightarrow> bool"
  for lib :: os_path and p :: int where
  start: "reachable lib p initial"
| notified: "reachable lib p s \<Longrightarrow> reachable lib p (state_of (on_any_event lib w p ev s))"
| turned: "reachable lib p s \<Longrightarrow> reachable lib p (state_of (process_file_pass w p s))"
| started: "reachable lib p s \<Longrightarrow> reachable lib p (state_of (main w dirs s))"

section \<open>Properties of the dictionary and of the log\<close>

text \<open>
  What the data class is meant to hold for a path: the path itself, its base name and its
  extension in lower case.
\<close>

definition item_consistent :: "os_path \<Rightarrow> string \<times> FileQueueItem \<Rightarrow> bool" where
  "item_consistent lib entry =
     (file_path (snd entry) = fst entry \<and>
      file_name (snd entry) = basename lib (fst entry) \<and>
      file_extention (snd entry) = lower lib (snd (splitext lib (fst entry))))"

definition queue_consistent :: "os_path \<Rightarrow> (string \<times> FileQueueItem) list \<Rightarrow> bool" where
  "queue_consistent lib q = list_all (item_consistent lib) q"

text \<open>
  A list of entries is a dictionary when no key occurs twice.
\<close>

definition is_dict :: "('k \<times> 'v) list \<Rightarrow> bool" where
  "is_dict q = distinct (map fst q)"

text \<open>
  The entries that a turn of the polling thread goes through before it comes to the key
  \<open>k\<close>, and the number of times a path has been logged as ready.
\<close>

definition entries_before :: "'k \<Rightarrow> ('k \<times> 'v) list \<Rightarrow> ('k \<times> 'v) list" where
  "entries_before k q = takeWhile (\<lambda>entry. fst entry \<noteq> k) q"

definition ready_count :: "string \<Rightarrow> monitor \<Rightarrow> nat" where
  "ready_count k s = count_list (logger s) (Info_ready_for_processing k)"

section \<open>A concrete library and concrete worlds\<close>

text \<open>
  The POSIX functions of the library on ASCII strings, after \<^verbatim>\<open>posixpath.basename\<close> and
  \<^verbatim>\<open>genericpath._splitext\<close>: the base name is what follows the last slash; the extension
  starts at the last dot of the base name, unless only dots stand before it.
\<close>

definition rfind :: "char \<Rightarrow> string \<Rightarrow> int" where
  "rfind c p = int (length p) - 1 - int (length (takeWhile (\<lambda>x. x \<noteq> c) (rev p)))"

definition posix_basename :: "string \<Rightarrow> string" where
  "posix_basename p = drop (nat (rfind CHR ''/'' p + 1)) p"

definition posix_splitext :: "string \<Rightarrow> string \<times> string" where
  "posix_splitext p =
     (let sepIndex = rfind CHR ''/'' p; dotIndex = rfind CHR ''.'' p in
      if dotIndex > sepIndex \<and>
         filter (\<lambda>c. c \<noteq> CHR ''.'')
           (take (nat (dotIndex - (sepIndex + 1))) (drop (nat (sepIndex + 1)) p)) \<noteq> []
      then (take (nat dotIndex) p, drop (nat dotIndex) p)
      else (p, []))"

definition ascii_lower :: "string \<Rightarrow> string" where
  "ascii_lower str =
     map (\<lambda>c. case map_of (zip ''ABCDEFGHIJKLMNOPQRSTUVWXYZ'' ''abcdefghijklmnopqrstuvwxyz'') c of
                 None \<Rightarrow> c
               | Some l \<Rightarrow> l) str"

definition posix :: os_path where
  "posix = \<lparr>basename = posix_basename, splitext = posix_splitext, lower = ascii_lower\<rparr>"

text \<open>
  A world with the clock at \<open>t\<close>, the listed files with their sizes, and the listed
  directories.
\<close>

definition world_at :: "int \<Rightarrow> (string \<times> int) list \<Rightarrow> string list \<Rightarrow> world" where
  "world_at t files dirs =
     \<lparr>now = t, getsize = map_of files,
      path_exists = (\<lambda>p. map_of files p \<noteq> None \<or> p \<in> set dirs)\<rparr>"

text \<open>
  A modification of the file \<^verbatim>\<open>/in/a.TXT\<close>, and the entries that the handler makes for
  it and for \<^verbatim>\<open>/in/b.bin\<close> when the clock is at one second, the files have 100 and 7
  bytes and the polling time is two seconds.
\<close>

definition modified_a :: event where
  "modified_a = \<lparr>is_directory = False, event_type = ''modified'', src_path = ''/in/a.TXT''\<rparr>"

definition item_a :: FileQueueItem where
  "item_a = \<lparr>file_path = ''/in/a.TXT'', file_size = 100, file_name = ''a.TXT'',
             file_extention = ''.txt'', next_poll = 3000000\<rparr>"

definition item_b :: FileQueueItem where
  "item_b = \<lparr>file_path = ''/in/b.bin'', file_size = 7, file_name = ''b.bin'',
             file_extention = ''.bin'', next_poll = 3000000\<rparr>"

definition staged_a :: monitor where
  "staged_a = \<lparr>FILE_QUEUE = [(''/in/a.TXT'', item_a)],
               logger = [Info_adding_to_queue ''/in/a.TXT''], observers = [''/in'']\<rparr>"

definition staged_a_b :: monitor where
  "staged_a_b = \<lparr>FILE_QUEUE = [(''/in/a.TXT'', item_a), (''/in/b.bin'', item_b)],
                 logger = [Info_adding_to_queue ''/in/a.TXT'', Info_adding_to_queue ''/in/b.bin''],
                 observers = [''/in'']\<rparr>"

text \<open>
  The state \<open>staged_a\<close> after the file \<^verbatim>\<open>/in/a.TXT\<close> was found with 150 bytes when the
  clock was at three seconds.
\<close>

definition rearmed_a :: monitor where
  "rearmed_a = \<lparr>FILE_QUEUE = [(''/in/a.TXT'', item_a\<lparr>file_size := 150, next_poll := 5000000\<rparr>)],
               logger = [Info_adding_to_queue ''/in/a.TXT''], observers = [''/in'']\<rparr>"

section \<open>Evaluation and the dictionary\<close>

text \<open>
  The definitions that a concrete run unfolds.
\<close>

lemmas run_defs = process_file_pass_def check_queued_file_def on_any_event_def
  plus_polling_time_def timedelta_def datetime_add_def datetime_max_def dict_pop_def
  world_at_def Let_def

lemma plus_polling_time_value:
  "plus_polling_time t p = Some t' \<Longrightarrow> t' = t + p * 1000000"
  by (auto simp: plus_polling_time_def timedelta_def datetime_add_def split: option.splits if_splits)

lemma dict_pop_Some: "map_of q k = Some v \<Longrightarrow> dict_pop k q = Some (AList.delete k q)"
  by (simp add: dict_pop_def)

lemma list_all_update:
  "list_all P q \<Longrightarrow> P (k, v) \<Longrightarrow> list_all P (AList.update k v q)"
  by (induction q) auto

lemma list_all_delete: "list_all P q \<Longrightarrow> list_all P (AList.delete k q)"
  by (induction q) auto

lemma list_all_map_entry:
  "list_all P q \<Longrightarrow> (\<And>v. P (k, v) \<Longrightarrow> P (k, f v)) \<Longrightarrow> list_all P (AList.map_entry k f q)"
  by (induction q) auto

lemma map_fst_update_present:
  "map_of q k = Some v \<Longrightarrow> map fst (AList.update k v' q) = map fst q"
  by (induction q) (auto split: if_splits)

lemma dict_split:
  "is_dict q \<Longrightarrow> map_of q k = Some v \<Longrightarrow>
   \<exists>post. entries_before k q @ (k, v) # post = q \<and> k \<notin> fst ` set (entries_before k q) \<and>
          k \<notin> fst ` set post"
proof (induction q)
  case Nil
  then show ?case by simp
next
  case (Cons x q)
  show ?case
  proof (cases "fst x = k")
    case True
    with Cons.prems show ?thesis
      by (cases x) (auto simp: entries_before_def is_dict_def)
  next
    case False
    with Cons.prems have "is_dict q" and "map_of q k = Some v"
      by (auto simp: is_dict_def)
    from Cons.IH [OF this] obtain post where
      "entries_before k q @ (k, v) # post = q" "k \<notin> fst ` set (entries_before k q)"
      "k \<notin> fst ` set post" by blast
    with False have "entries_before k (x # q) @ (k, v) # post = x # q \<and>
        k \<notin> fst ` set (entries_before k (x # q)) \<and> k \<notin> fst ` set post"
      by (simp add: entries_before_def)
    then show ?thesis ..
  qed
qed

lemma dict_one_entry:
  assumes "is_dict q" and "map_of q k = Some v"
  shows "filter (\<lambda>entry. fst entry = k) q = [(k, v)]"
proof -
  from dict_split [OF assms] obtain post where
    split: "entries_before k q @ (k, v) # post = q"
    and pre: "k \<notin> fst ` set (entries_before k q)" and post: "k \<notin> fst ` set post" by blast
  have "filter (\<lambda>entry. fst entry = k) (entries_before k q) = []"
    using pre by (auto simp: filter_empty_conv)
  moreover have "filter (\<lambda>entry. fst entry = k) post = []"
    using post by (auto simp: filter_empty_conv)
  ultimately have "filter (\<lambda>entry. fst entry = k) (entries_before k q @ (k, v) # post) = [(k, v)]"
    by simp
  then show ?thesis by (simp only: split)
qed

lemma dict_entries_of_key:
  assumes "is_dict q" and "map_of q k = Some v" and "entry \<in> set q" and "fst entry = k"
  shows "snd entry = v"
proof -
  from assms(3,4) have "(k, snd entry) \<in> set q" by (cases entry) auto
  with assms(1) have "map_of q k = Some (snd entry)" by (simp add: is_dict_def)
  with assms(2) show ?thesis by simp
qed

lemma consistent_file_path:
  "queue_consistent lib q \<Longrightarrow> x \<in> set q \<Longrightarrow> file_path (snd x) = fst x"
  by (auto simp: queue_consistent_def item_consistent_def list_all_iff)

section \<open>The handler, step by step\<close>

lemma event_ignored:
  "is_directory ev \<or> event_type ev \<noteq> ''modified'' \<Longrightarrow> on_any_event lib w p ev s = Returns s"
  by (auto simp: on_any_event_def)

lemma event_tracked:
  "map_of (FILE_QUEUE s) (src_path ev) = Some item \<Longrightarrow> on_any_event lib w p ev s = Returns s"
  by (simp add: on_any_event_def)

lemma event_vanished:
  "\<not> is_directory ev \<Longrightarrow> event_type ev = ''modified'' \<Longrightarrow>
   map_of (FILE_QUEUE s) (src_path ev) = None \<Longrightarrow> getsize w (src_path ev) = None \<Longrightarrow>
   on_any_event lib w p ev s =
     Raises (OSError (src_path ev)) (s\<lparr>logger := logger s @ [Info_adding_to_queue (src_path ev)]\<rparr>)"
  by (simp add: on_any_event_def)

lemma event_staged:
  assumes "\<not> is_directory ev" and "event_type ev = ''modified''"
    and "map_of (FILE_QUEUE s) (src_path ev) = None"
    and "getsize w (src_path ev) = Some n"
    and "plus_polling_time (now w) p = Some t"
  shows "on_any_event lib w p ev s =
     Returns (s\<lparr>logger := logger s @ [Info_adding_to_queue (src_path ev)],
                FILE_QUEUE :=
                  AList.update (src_path ev)
                    \<lparr>file_path = src_path ev,
                     file_size = n,
                     file_name = basename lib (src_path ev),
                     file_extention = lower lib (snd (splitext lib (src_path ev))),
                     next_poll = t\<rparr>
                    (FILE_QUEUE s)\<rparr>)"
  using assms by (simp add: on_any_event_def)

lemma event_is_dict:
  "is_dict (FILE_QUEUE s) \<Longrightarrow> is_dict (FILE_QUEUE (state_of (on_any_event lib w p ev s)))"
  by (auto simp: on_any_event_def Let_def is_dict_def distinct_update split: option.splits)

lemma event_consistent:
  "queue_consistent lib (FILE_QUEUE s) \<Longrightarrow>
   queue_consistent lib (FILE_QUEUE (state_of (on_any_event lib w p ev s)))"
  by (auto simp: on_any_event_def Let_def queue_consistent_def item_consistent_def
           intro!: list_all_update split: option.splits)

lemma event_entry:
  "map_of (FILE_QUEUE (state_of (on_any_event lib w p ev s))) k = Some item' \<Longrightarrow>
   map_of (FILE_QUEUE s) k = Some item' \<or>
   (map_of (FILE_QUEUE s) k = None \<and> k = src_path ev \<and> \<not> is_directory ev \<and>
    event_type ev = ''modified'' \<and> getsize w k = Some (file_size item') \<and>
    next_poll item' = now w + p * 1000000)"
  by (auto simp: on_any_event_def Let_def update_conv' dest: plus_polling_time_value
           split: option.splits if_splits)

section \<open>One entry of a turn\<close>

lemma check_not_due:
  "now w < next_poll (snd entry) \<Longrightarrow> check_queued_file w p entry s = Returns s"
  by (simp add: check_queued_file_def)

lemma check_vanished:
  "next_poll (snd entry) \<le> now w \<Longrightarrow> getsize w (fst entry) = None \<Longrightarrow>
   check_queued_file w p entry s = Raises (OSError (fst entry)) s"
  by (simp add: check_queued_file_def)

lemma check_settled:
  "next_poll (snd entry) \<le> now w \<Longrightarrow> getsize w (fst entry) = Some (file_size (snd entry)) \<Longrightarrow>
   map_of (FILE_QUEUE s) (fst entry) = Some v \<Longrightarrow>
   check_queued_file w p entry s =
     Returns (s\<lparr>FILE_QUEUE := AList.delete (fst entry) (FILE_QUEUE s),
                logger := logger s @ [Info_ready_for_processing (file_path (snd entry))]\<rparr>)"
  by (simp add: check_queued_file_def dict_pop_Some)

lemma check_grown:
  "next_poll (snd entry) \<le> now w \<Longrightarrow> getsize w (fst entry) = Some n \<Longrightarrow>
   n \<noteq> file_size (snd entry) \<Longrightarrow> plus_polling_time (now w) p = Some t \<Longrightarrow>
   check_queued_file w p entry s =
     Returns (s\<lparr>FILE_QUEUE :=
       AList.update (fst entry) ((snd entry)\<lparr>file_size := n, next_poll := t\<rparr>) (FILE_QUEUE s)\<rparr>)"
  by (simp add: check_queued_file_def)

lemma check_other_key:
  "fst entry \<noteq> k \<Longrightarrow>
   map_of (FILE_QUEUE (state_of (check_queued_file w p entry s))) k = map_of (FILE_QUEUE s) k"
  by (auto simp: check_queued_file_def Let_def dict_pop_def update_conv' map_of_map_entry
           split: option.splits)

lemma check_is_dict:
  "is_dict (FILE_QUEUE s) \<Longrightarrow> is_dict (FILE_QUEUE (state_of (check_queued_file w p entry s)))"
  by (auto simp: check_queued_file_def Let_def dict_pop_def is_dict_def distinct_update
                 distinct_delete distinct_map_entry split: option.splits)

lemma check_consistent:
  "queue_consistent lib (FILE_QUEUE s) \<Longrightarrow> item_consistent lib entry \<Longrightarrow>
   queue_consistent lib (FILE_QUEUE (state_of (check_queued_file w p entry s)))"
  by (auto simp: check_queued_file_def Let_def dict_pop_def queue_consistent_def
                 item_consistent_def
           intro!: list_all_update list_all_delete list_all_map_entry split: option.splits)

lemma check_ready_count:
  "file_path (snd entry) \<noteq> k \<Longrightarrow>
   ready_count k (state_of (check_queued_file w p entry s)) = ready_count k s"
  by (auto simp: check_queued_file_def Let_def ready_count_def split: option.splits)

lemma check_next_poll:
  "map_of (FILE_QUEUE (state_of (check_queued_file w p entry s))) k = Some item' \<Longrightarrow>
   next_poll item' = now w + p * 1000000 \<or>
   (\<exists>item. map_of (FILE_QUEUE s) k = Some item \<and> next_poll item' = next_poll item)"
  by (auto simp: check_queued_file_def Let_def dict_pop_def update_conv' map_of_map_entry
                 delete_conv'
           dest: plus_polling_time_value split: option.splits if_splits)

lemma check_keys:
  "fst ` set (FILE_QUEUE (state_of (check_queued_file w p entry s)))
     \<subseteq> insert (fst entry) (fst ` set (FILE_QUEUE s))"
  using dom_delete_subset [of "fst entry" "FILE_QUEUE s"]
  by (auto simp: check_queued_file_def Let_def dict_pop_def dom_update dom_map_entry
           split: option.splits)

lemma check_getsize_irrelevant:
  "fst entry = k \<longrightarrow> now w < next_poll (snd entry) \<Longrightarrow>
   check_queued_file (w\<lparr>getsize := (getsize w)(k := r)\<rparr>) p entry s = check_queued_file w p entry s"
  by (cases "fst entry = k") (auto simp: check_queued_file_def Let_def split: option.splits)

section \<open>The loop over the copy\<close>

lemma for_append:
  "for_current_items w p (xs @ ys) s =
     (case for_current_items w p xs s of
        Returns s' \<Rightarrow> for_current_items w p ys s'
      | Raises e s' \<Rightarrow> Raises e s')"
  by (induction xs arbitrary: s) (auto split: outcome.splits)

lemma for_other_key:
  "k \<notin> fst ` set xs \<Longrightarrow>
   map_of (FILE_QUEUE (state_of (for_current_items w p xs s))) k = map_of (FILE_QUEUE s) k"
proof (induction xs arbitrary: s)
  case Nil
  then show ?case by simp
next
  case (Cons x xs)
  from Cons.prems have x: "fst x \<noteq> k" and xs: "k \<notin> fst ` set xs" by auto
  show ?case
  proof (cases "check_queued_file w p x s")
    case (Returns s')
    with check_other_key [OF x, of w p s] Cons.IH [OF xs, of s'] show ?thesis by simp
  next
    case (Raises e s')
    with check_other_key [OF x, of w p s] show ?thesis by simp
  qed
qed

lemma for_is_dict:
  "is_dict (FILE_QUEUE s) \<Longrightarrow> is_dict (FILE_QUEUE (state_of (for_current_items w p xs s)))"
proof (induction xs arbitrary: s)
  case Nil
  then show ?case by simp
next
  case (Cons x xs)
  show ?case
  proof (cases "check_queued_file w p x s")
    case (Returns s')
    with check_is_dict [OF Cons.prems, of w p x] Cons.IH [of s'] show ?thesis by simp
  next
    case (Raises e s')
    with check_is_dict [OF Cons.prems, of w p x] show ?thesis by simp
  qed
qed

lemma for_consistent:
  "queue_consistent lib (FILE_QUEUE s) \<Longrightarrow> list_all (item_consistent lib) xs \<Longrightarrow>
   queue_consistent lib (FILE_QUEUE (state_of (for_current_items w p xs s)))"
proof (induction xs arbitrary: s)
  case Nil
  then show ?case by simp
next
  case (Cons x xs)
  from Cons.prems have x: "item_consistent lib x" and xs: "list_all (item_consistent lib) xs"
    by auto
  show ?case
  proof (cases "check_queued_file w p x s")
    case (Returns s')
    with check_consistent [OF Cons.prems(1) x, of w p] Cons.IH [OF _ xs, of s']
    show ?thesis by simp
  next
    case (Raises e s')
    with check_consistent [OF Cons.prems(1) x, of w p] show ?thesis by simp
  qed
qed

lemma for_ready_count:
  "\<forall>x \<in> set xs. file_path (snd x) \<noteq> k \<Longrightarrow>
   ready_count k (state_of (for_current_items w p xs s)) = ready_count k s"
proof (induction xs arbitrary: s)
  case Nil
  then show ?case by simp
next
  case (Cons x xs)
  from Cons.prems have x: "file_path (snd x) \<noteq> k" and xs: "\<forall>x \<in> set xs. file_path (snd x) \<noteq> k"
    by auto
  show ?case
  proof (cases "check_queued_file w p x s")
    case (Returns s')
    with check_ready_count [OF x, of w p s] Cons.IH [OF xs, of s'] show ?thesis by simp
  next
    case (Raises e s')
    with check_ready_count [OF x, of w p s] show ?thesis by simp
  qed
qed

lemma for_next_poll:
  "map_of (FILE_QUEUE (state_of (for_current_items w p xs s))) k = Some item' \<Longrightarrow>
   next_poll item' = now w + p * 1000000 \<or>
   (\<exists>item. map_of (FILE_QUEUE s) k = Some item \<and> next_poll item' = next_poll item)"
proof (induction xs arbitrary: s)
  case Nil
  then show ?case by simp
next
  case (Cons x xs)
  show ?case
  proof (cases "check_queued_file w p x s")
    case (Returns s')
    with Cons.prems have "map_of (FILE_QUEUE (state_of (for_current_items w p xs s'))) k = Some item'"
      by simp
    from Cons.IH [OF this] show ?thesis
    proof
      assume "next_poll item' = now w + p * 1000000"
      then show ?thesis ..
    next
      assume "\<exists>item. map_of (FILE_QUEUE s') k = Some item \<and> next_poll item' = next_poll item"
      then obtain item where i: "map_of (FILE_QUEUE s') k = Some item"
        and n: "next_poll item' = next_poll item" by blast
      from i Returns have "map_of (FILE_QUEUE (state_of (check_queued_file w p x s))) k = Some item"
        by simp
      from check_next_poll [OF this] n show ?thesis by auto
    qed
  next
    case (Raises e s')
    with Cons.prems have "map_of (FILE_QUEUE (state_of (check_queued_file w p x s))) k = Some item'"
      by simp
    from check_next_poll [OF this] show ?thesis .
  qed
qed

lemma for_keys:
  "fst ` set (FILE_QUEUE (state_of (for_current_items w p xs s)))
     \<subseteq> fst ` set xs \<union> fst ` set (FILE_QUEUE s)"
proof (induction xs arbitrary: s)
  case Nil
  then show ?case by simp
next
  case (Cons x xs)
  note step = check_keys [of w p x s]
  show ?case
  proof (cases "check_queued_file w p x s")
    case (Returns s')
    have c: "for_current_items w p (x # xs) s = for_current_items w p xs s'"
      using Returns by simp
    have a: "fst ` set (FILE_QUEUE s') \<subseteq> insert (fst x) (fst ` set (FILE_QUEUE s))"
      using step Returns by simp
    have "fst ` set (FILE_QUEUE (state_of (for_current_items w p xs s')))
            \<subseteq> fst ` set xs \<union> insert (fst x) (fst ` set (FILE_QUEUE s))"
      using a Cons.IH [of s'] by blast
    then show ?thesis unfolding c by simp
  next
    case (Raises e s')
    with step show ?thesis by auto
  qed
qed

lemma for_getsize_irrelevant:
  "\<forall>entry \<in> set xs. fst entry = k \<longrightarrow> now w < next_poll (snd entry) \<Longrightarrow>
   for_current_items (w\<lparr>getsize := (getsize w)(k := r)\<rparr>) p xs s = for_current_items w p xs s"
proof (induction xs arbitrary: s)
  case Nil
  then show ?case by simp
next
  case (Cons x xs)
  from Cons.prems have x: "fst x = k \<longrightarrow> now w < next_poll (snd x)"
    and xs: "\<forall>entry \<in> set xs. fst entry = k \<longrightarrow> now w < next_poll (snd entry)" by auto
  have "for_current_items (w\<lparr>getsize := (getsize w)(k := r)\<rparr>) p (x # xs) s =
      (case check_queued_file w p x s of
         Returns s' \<Rightarrow> for_current_items (w\<lparr>getsize := (getsize w)(k := r)\<rparr>) p xs s'
       | Raises e s' \<Rightarrow> Raises e s')"
    by (simp only: for_current_items.simps check_getsize_irrelevant [OF x])
  also have "\<dots> = for_current_items w p (x # xs) s"
    by (cases "check_queued_file w p x s") (simp_all only: for_current_items.simps outcome.case Cons.IH [OF xs])
  finally show ?case .
qed

lemma for_not_due_unchanged:
  "\<forall>entry \<in> set xs. fst entry = k \<longrightarrow> now w < next_poll (snd entry) \<Longrightarrow>
   map_of (FILE_QUEUE (state_of (for_current_items w p xs s))) k = map_of (FILE_QUEUE s) k"
proof (induction xs arbitrary: s)
  case Nil
  then show ?case by simp
next
  case (Cons x xs)
  from Cons.prems have x: "fst x = k \<longrightarrow> now w < next_poll (snd x)"
    and xs: "\<forall>entry \<in> set xs. fst entry = k \<longrightarrow> now w < next_poll (snd entry)" by auto
  have step: "map_of (FILE_QUEUE (state_of (check_queued_file w p x s))) k = map_of (FILE_QUEUE s) k"
  proof (cases "fst x = k")
    case True
    with x have "check_queued_file w p x s = Returns s" by (simp add: check_not_due)
    then show ?thesis by simp
  next
    case False
    then show ?thesis by (rule check_other_key)
  qed
  show ?case
  proof (cases "check_queued_file w p x s")
    case (Returns s')
    with step Cons.IH [OF xs, of s'] show ?thesis by simp
  next
    case (Raises e s')
    with step show ?thesis by simp
  qed
qed

section \<open>A turn of the thread\<close>

lemma pass_keys:
  "fst ` set (FILE_QUEUE (state_of (process_file_pass w p s))) \<subseteq> fst ` set (FILE_QUEUE s)"
  using for_keys [of w p "FILE_QUEUE s" s] by (simp add: process_file_pass_def)

lemma pass_is_dict:
  "is_dict (FILE_QUEUE s) \<Longrightarrow> is_dict (FILE_QUEUE (state_of (process_file_pass w p s)))"
  by (simp add: process_file_pass_def for_is_dict)

lemma pass_consistent:
  "queue_consistent lib (FILE_QUEUE s) \<Longrightarrow>
   queue_consistent lib (FILE_QUEUE (state_of (process_file_pass w p s)))"
  unfolding process_file_pass_def
  by (rule for_consistent) (simp_all add: queue_consistent_def)

lemma pass_untracked:
  assumes c: "queue_consistent lib (FILE_QUEUE s)" and k: "map_of (FILE_QUEUE s) k = None"
  shows "map_of (FILE_QUEUE (state_of (process_file_pass w p s))) k = None"
    and "ready_count k (state_of (process_file_pass w p s)) = ready_count k s"
proof -
  from k have notin: "k \<notin> fst ` set (FILE_QUEUE s)" by (simp add: map_of_eq_None_iff)
  with pass_keys [of w p s] show "map_of (FILE_QUEUE (state_of (process_file_pass w p s))) k = None"
    by (auto simp: map_of_eq_None_iff)
  have "\<forall>x \<in> set (FILE_QUEUE s). file_path (snd x) \<noteq> k"
    using consistent_file_path [OF c] notin by force
  then show "ready_count k (state_of (process_file_pass w p s)) = ready_count k s"
    by (simp add: process_file_pass_def for_ready_count)
qed

lemma process_file_untracked:
  "queue_consistent lib (FILE_QUEUE s) \<Longrightarrow> map_of (FILE_QUEUE s) k = None \<Longrightarrow>
   map_of (FILE_QUEUE (state_of (process_file p ws s))) k = None \<and>
   ready_count k (state_of (process_file p ws s)) = ready_count k s"
proof (induction ws arbitrary: s)
  case Nil
  then show ?case by simp
next
  case (Cons w ws)
  note u = pass_untracked [OF Cons.prems, of w p] and c = pass_consistent [OF Cons.prems(1), of w p]
  show ?case
  proof (cases "process_file_pass w p s")
    case (Returns s')
    with u c Cons.IH [of s'] show ?thesis by simp
  next
    case (Raises e s')
    with u show ?thesis by simp
  qed
qed

text \<open>
  When a turn comes to the entry of a key, the live dictionary still holds for the key
  the item that the copy holds: the entries before it have other keys. The turn is then the
  check of this entry, followed by the loop over the entries behind it.
\<close>

lemma pass_reaches:
  assumes d: "is_dict (FILE_QUEUE s)" and m: "map_of (FILE_QUEUE s) k = Some item"
    and r: "raised (for_current_items w p (entries_before k (FILE_QUEUE s)) s) = None"
  obtains s1 post where
    "entries_before k (FILE_QUEUE s) @ (k, item) # post = FILE_QUEUE s"
    "k \<notin> fst ` set (entries_before k (FILE_QUEUE s))"
    "k \<notin> fst ` set post"
    "for_current_items w p (entries_before k (FILE_QUEUE s)) s = Returns s1"
    "map_of (FILE_QUEUE s1) k = Some item"
    "process_file_pass w p s =
       (case check_queued_file w p (k, item) s1 of
          Returns s2 \<Rightarrow> for_current_items w p post s2
        | Raises e s2 \<Rightarrow> Raises e s2)"
proof -
  let ?pre = "entries_before k (FILE_QUEUE s)"
  from dict_split [OF d m] obtain post where
    split: "?pre @ (k, item) # post = FILE_QUEUE s"
    and pre: "k \<notin> fst ` set ?pre" and post: "k \<notin> fst ` set post" by blast
  from r obtain s1 where s1: "for_current_items w p ?pre s = Returns s1"
    by (cases "for_current_items w p ?pre s") auto
  from for_other_key [OF pre, of w p s] s1 m have m1: "map_of (FILE_QUEUE s1) k = Some item"
    by simp
  have "process_file_pass w p s = for_current_items w p (?pre @ (k, item) # post) s"
    by (simp only: process_file_pass_def split)
  also have "\<dots> = (case check_queued_file w p (k, item) s1 of
          Returns s2 \<Rightarrow> for_current_items w p post s2
        | Raises e s2 \<Rightarrow> Raises e s2)"
    by (simp only: for_append s1 outcome.case for_current_items.simps)
  finally show thesis by (rule that [OF split pre post s1 m1])
qed

lemma pass_returns_reaches:
  assumes d: "is_dict (FILE_QUEUE s)" and m: "map_of (FILE_QUEUE s) k = Some item"
    and ret: "process_file_pass w p s = Returns s'"
  shows "raised (for_current_items w p (entries_before k (FILE_QUEUE s)) s) = None"
proof -
  let ?pre = "entries_before k (FILE_QUEUE s)"
  from dict_split [OF d m] obtain post where
    split: "?pre @ (k, item) # post = FILE_QUEUE s" by blast
  have "process_file_pass w p s = for_current_items w p (?pre @ (k, item) # post) s"
    by (simp only: process_file_pass_def split)
  with ret have "for_current_items w p (?pre @ (k, item) # post) s = Returns s'" by simp
  then show ?thesis
    by (cases "for_current_items w p ?pre s") (simp_all add: for_append)
qed

lemma before_ready_count:
  assumes c: "queue_consistent lib (FILE_QUEUE s)"
    and split: "pre @ (k, item) # post = FILE_QUEUE s"
    and pre: "k \<notin> fst ` set pre" and post: "k \<notin> fst ` set post"
  shows "\<forall>x \<in> set pre. file_path (snd x) \<noteq> k" and "\<forall>x \<in> set post. file_path (snd x) \<noteq> k"
    and "file_path item = k"
proof -
  have sub: "set pre \<subseteq> set (FILE_QUEUE s)" "set post \<subseteq> set (FILE_QUEUE s)"
    "(k, item) \<in> set (FILE_QUEUE s)"
    using split [symmetric] by auto
  show "\<forall>x \<in> set pre. file_path (snd x) \<noteq> k"
  proof
    fix x assume x: "x \<in> set pre"
    with sub(1) have "file_path (snd x) = fst x" by (blast intro: consistent_file_path [OF c])
    moreover from x pre have "fst x \<noteq> k" by blast
    ultimately show "file_path (snd x) \<noteq> k" by simp
  qed
  show "\<forall>x \<in> set post. file_path (snd x) \<noteq> k"
  proof
    fix x assume x: "x \<in> set post"
    with sub(2) have "file_path (snd x) = fst x" by (blast intro: consistent_file_path [OF c])
    moreover from x post have "fst x \<noteq> k" by blast
    ultimately show "file_path (snd x) \<noteq> k" by simp
  qed
  show "file_path item = k"
    using consistent_file_path [OF c sub(3)] by simp
qed

lemma pass_settled:
  assumes d: "is_dict (FILE_QUEUE s)" and c: "queue_consistent lib (FILE_QUEUE s)"
    and m: "map_of (FILE_QUEUE s) k = Some item"
    and r: "raised (for_current_items w p (entries_before k (FILE_QUEUE s)) s) = None"
    and due: "next_poll item \<le> now w"
    and same: "getsize w k = Some (file_size item)"
  shows "map_of (FILE_QUEUE (state_of (process_file_pass w p s))) k = None \<and>
         ready_count k (state_of (process_file_pass w p s)) = ready_count k s + 1"
proof (rule pass_reaches [OF d m r])
  fix s1 post
  assume split: "entries_before k (FILE_QUEUE s) @ (k, item) # post = FILE_QUEUE s"
    and pre: "k \<notin> fst ` set (entries_before k (FILE_QUEUE s))"
    and post: "k \<notin> fst ` set post"
    and s1: "for_current_items w p (entries_before k (FILE_QUEUE s)) s = Returns s1"
    and m1: "map_of (FILE_QUEUE s1) k = Some item"
    and pass: "process_file_pass w p s =
       (case check_queued_file w p (k, item) s1 of
          Returns s2 \<Rightarrow> for_current_items w p post s2
        | Raises e s2 \<Rightarrow> Raises e s2)"
  note paths = before_ready_count [OF c split pre post]
  define s2 where "s2 = s1\<lparr>FILE_QUEUE := AList.delete k (FILE_QUEUE s1),
    logger := logger s1 @ [Info_ready_for_processing (file_path item)]\<rparr>"
  have chk: "check_queued_file w p (k, item) s1 = Returns s2"
    using check_settled [of "(k, item)" w s1 item p] due same m1 by (simp add: s2_def)
  have pass2: "process_file_pass w p s = for_current_items w p post s2"
    by (simp add: pass chk)
  have r1: "ready_count k s1 = ready_count k s"
    using for_ready_count [OF paths(1), of w p s] s1 by simp
  have r2: "ready_count k s2 = ready_count k s1 + 1"
    by (simp add: s2_def ready_count_def paths(3))
  have m2: "map_of (FILE_QUEUE s2) k = None"
    by (simp add: s2_def delete_conv')
  have "map_of (FILE_QUEUE (state_of (process_file_pass w p s))) k = None"
    using for_other_key [OF post, of w p s2] m2 by (simp add: pass2)
  moreover have "ready_count k (state_of (process_file_pass w p s)) = ready_count k s + 1"
    using for_ready_count [OF paths(2), of w p s2] r1 r2 by (simp add: pass2)
  ultimately show ?thesis ..
qed

lemma pass_grown:
  assumes d: "is_dict (FILE_QUEUE s)" and c: "queue_consistent lib (FILE_QUEUE s)"
    and m: "map_of (FILE_QUEUE s) k = Some item"
    and r: "raised (for_current_items w p (entries_before k (FILE_QUEUE s)) s) = None"
    and due: "next_poll item \<le> now w"
    and size: "getsize w k = Some n" and grown: "n \<noteq> file_size item"
    and t: "plus_polling_time (now w) p = Some t"
  shows "map_of (FILE_QUEUE (state_of (process_file_pass w p s))) k
           = Some (item\<lparr>file_size := n, next_poll := t\<rparr>) \<and>
         ready_count k (state_of (process_file_pass w p s)) = ready_count k s"
proof (rule pass_reaches [OF d m r])
  fix s1 post
  assume split: "entries_before k (FILE_QUEUE s) @ (k, item) # post = FILE_QUEUE s"
    and pre: "k \<notin> fst ` set (entries_before k (FILE_QUEUE s))"
    and post: "k \<notin> fst ` set post"
    and s1: "for_current_items w p (entries_before k (FILE_QUEUE s)) s = Returns s1"
    and m1: "map_of (FILE_QUEUE s1) k = Some item"
    and pass: "process_file_pass w p s =
       (case check_queued_file w p (k, item) s1 of
          Returns s2 \<Rightarrow> for_current_items w p post s2
        | Raises e s2 \<Rightarrow> Raises e s2)"
  note paths = before_ready_count [OF c split pre post]
  define s2 where "s2 = s1\<lparr>FILE_QUEUE :=
    AList.update k (item\<lparr>file_size := n, next_poll := t\<rparr>) (FILE_QUEUE s1)\<rparr>"
  have chk: "check_queued_file w p (k, item) s1 = Returns s2"
    using check_grown [of "(k, item)" w n p t s1] due size grown t by (simp add: s2_def)
  have pass2: "process_file_pass w p s = for_current_items w p post s2"
    by (simp add: pass chk)
  have r1: "ready_count k s1 = ready_count k s"
    using for_ready_count [OF paths(1), of w p s] s1 by simp
  have r2: "ready_count k s2 = ready_count k s1"
    by (simp add: s2_def ready_count_def)
  have m2: "map_of (FILE_QUEUE s2) k = Some (item\<lparr>file_size := n, next_poll := t\<rparr>)"
    by (simp add: s2_def update_conv')
  have "map_of (FILE_QUEUE (state_of (process_file_pass w p s))) k
          = Some (item\<lparr>file_size := n, next_poll := t\<rparr>)"
    using for_other_key [OF post, of w p s2] m2 by (simp add: pass2)
  moreover have "ready_count k (state_of (process_file_pass w p s)) = ready_count k s"
    using for_ready_count [OF paths(2), of w p s2] r1 r2 by (simp add: pass2)
  ultimately show ?thesis ..
qed

lemma pass_overflow:
  assumes d: "is_dict (FILE_QUEUE s)"
    and m: "map_of (FILE_QUEUE s) k = Some item"
    and r: "raised (for_current_items w p (entries_before k (FILE_QUEUE s)) s) = None"
    and due: "next_poll item \<le> now w"
    and size: "getsize w k = Some n" and grown: "n \<noteq> file_size item"
    and t: "plus_polling_time (now w) p = None"
  shows "raised (process_file_pass w p s) = Some OverflowError"
proof (rule pass_reaches [OF d m r])
  fix s1 post
  assume pass: "process_file_pass w p s =
       (case check_queued_file w p (k, item) s1 of
          Returns s2 \<Rightarrow> for_current_items w p post s2
        | Raises e s2 \<Rightarrow> Raises e s2)"
  have "raised (check_queued_file w p (k, item) s1) = Some OverflowError"
    using due size grown t by (simp add: check_queued_file_def)
  then show ?thesis
    by (cases "check_queued_file w p (k, item) s1") (simp_all add: pass)
qed

lemma pass_rearmed:
  assumes d: "is_dict (FILE_QUEUE s)"
    and m: "map_of (FILE_QUEUE s) k = Some item"
    and r: "raised (for_current_items w p (entries_before k (FILE_QUEUE s)) s) = None"
    and due: "next_poll item \<le> now w"
    and size: "getsize w k = Some n" and grown: "n \<noteq> file_size item"
    and t: "plus_polling_time (now w) p = Some t"
  shows "map_of (FILE_QUEUE (state_of (process_file_pass w p s))) k
           = Some (item\<lparr>file_size := n, next_poll := t\<rparr>)"
proof (rule pass_reaches [OF d m r])
  fix s1 post
  assume post: "k \<notin> fst ` set post"
    and pass: "process_file_pass w p s =
       (case check_queued_file w p (k, item) s1 of
          Returns s2 \<Rightarrow> for_current_items w p post s2
        | Raises e s2 \<Rightarrow> Raises e s2)"
  define s2 where "s2 = s1\<lparr>FILE_QUEUE :=
    AList.update k (item\<lparr>file_size := n, next_poll := t\<rparr>) (FILE_QUEUE s1)\<rparr>"
  have chk: "check_queued_file w p (k, item) s1 = Returns s2"
    using check_grown [of "(k, item)" w n p t s1] due size grown t by (simp add: s2_def)
  have pass2: "process_file_pass w p s = for_current_items w p post s2"
    by (simp add: pass chk)
  have m2: "map_of (FILE_QUEUE s2) k = Some (item\<lparr>file_size := n, next_poll := t\<rparr>)"
    by (simp add: s2_def update_conv')
  show ?thesis
    using for_other_key [OF post, of w p s2] m2 by (simp add: pass2)
qed

lemma pass_overflow_entry:
  assumes d: "is_dict (FILE_QUEUE s)"
    and m: "map_of (FILE_QUEUE s) k = Some item"
    and r: "raised (for_current_items w p (entries_before k (FILE_QUEUE s)) s) = None"
    and due: "next_poll item \<le> now w"
    and size: "getsize w k = Some n" and grown: "n \<noteq> file_size item"
    and t: "plus_polling_time (now w) p = None"
  shows "map_of (FILE_QUEUE (state_of (process_file_pass w p s))) k
           = Some (item\<lparr>file_size := n\<rparr>)"
proof (rule pass_reaches [OF d m r])
  fix s1 post
  assume m1: "map_of (FILE_QUEUE s1) k = Some item"
    and pass: "process_file_pass w p s =
       (case check_queued_file w p (k, item) s1 of
          Returns s2 \<Rightarrow> for_current_items w p post s2
        | Raises e s2 \<Rightarrow> Raises e s2)"
  define s2 where "s2 = s1\<lparr>FILE_QUEUE :=
    AList.map_entry k (\<lambda>item. item\<lparr>file_size := n\<rparr>) (FILE_QUEUE s1)\<rparr>"
  have chk: "check_queued_file w p (k, item) s1 = Raises OverflowError s2"
    using due size grown t by (simp add: check_queued_file_def s2_def)
  have "map_of (FILE_QUEUE s2) k = Some (item\<lparr>file_size := n\<rparr>)"
    using m1 by (simp add: s2_def map_of_map_entry)
  then show ?thesis by (simp add: pass chk)
qed

section \<open>Start-up, step by step\<close>

lemma monitor_directories_observers:
  "observers (monitor_directories w dirs s) = observers s @ filter (path_exists w) dirs"
  by (induction dirs arbitrary: s) (simp_all add: DirectoryWatcher_def)

lemma monitor_directories_logger:
  "logger (monitor_directories w dirs s) =
     logger s @ map (\<lambda>d. if path_exists w d then Info_adding_monitor d else Error_does_not_exist d) dirs"
  by (induction dirs arbitrary: s) (simp_all add: DirectoryWatcher_def)

lemma monitor_directories_queue:
  "FILE_QUEUE (monitor_directories w dirs s) = FILE_QUEUE s"
  by (induction dirs arbitrary: s) (simp_all add: DirectoryWatcher_def)

lemma main_queue: "FILE_QUEUE (state_of (main w dirs s)) = FILE_QUEUE s"
  by (cases dirs) (simp_all add: main_def monitor_directories_queue)

section \<open>What holds of every state\<close>

lemma reachable_invariant:
  "reachable lib p s \<Longrightarrow> is_dict (FILE_QUEUE s) \<and> queue_consistent lib (FILE_QUEUE s)"
proof (induction rule: reachable.induct)
  case start
  show ?case by (simp add: initial_def is_dict_def queue_consistent_def)
next
  case (notified s w ev)
  then show ?case by (simp add: event_is_dict event_consistent)
next
  case (turned s w)
  then show ?case by (simp add: pass_is_dict pass_consistent)
next
  case (started s w dirs)
  then show ?case by (simp add: main_queue)
qed

section \<open>The concrete library and states\<close>

text \<open>
  The extension that \<open>posix_splitext\<close> gives is empty or starts with the dot.
\<close>

lemma rfind_bounds: "- 1 \<le> rfind c p \<and> rfind c p < int (length p)"
  using length_takeWhile_le [of "\<lambda>x. x \<noteq> c" "rev p"] by (simp add: rfind_def)

lemma rfind_nth:
  assumes "0 \<le> rfind c p"
  shows "p ! nat (rfind c p) = c"
proof -
  let ?n = "length (takeWhile (\<lambda>x. x \<noteq> c) (rev p))"
  from assms have n: "?n < length p" by (simp add: rfind_def)
  then have "?n < length (rev p)" by simp
  then have "\<not> (rev p ! ?n \<noteq> c)" by (rule nth_length_takeWhile)
  moreover from n have "rev p ! ?n = p ! (length p - Suc ?n)" by (rule rev_nth)
  moreover from n have "nat (rfind c p) = length p - Suc ?n" by (simp add: rfind_def)
  ultimately show ?thesis by simp
qed

lemma posix_splitext_dot:
  "snd (posix_splitext p) = [] \<or> (\<exists>rest. snd (posix_splitext p) = CHR ''.'' # rest)"
proof (cases "snd (posix_splitext p) = []")
  case True
  then show ?thesis ..
next
  case False
  let ?d = "rfind CHR ''.'' p"
  from False have ext: "snd (posix_splitext p) = drop (nat ?d) p" and pos: "rfind CHR ''/'' p < ?d"
    by (auto simp: posix_splitext_def Let_def split: if_splits)
  from pos rfind_bounds [of "CHR ''/''" p] have d0: "0 \<le> ?d" by simp
  with rfind_bounds [of "CHR ''.''" p] have "nat ?d < length p" by simp
  then have "drop (nat ?d) p = p ! nat ?d # drop (Suc (nat ?d)) p"
    by (simp add: Cons_nth_drop_Suc)
  with rfind_nth [OF d0] ext show ?thesis by simp
qed

lemma staged_a_is_dict: "is_dict (FILE_QUEUE staged_a)"
  by (simp add: staged_a_def is_dict_def)

lemma item_a_consistent: "item_consistent posix (''/in/a.TXT'', item_a)"
  by (simp add: item_a_def item_consistent_def posix_def posix_basename_def posix_splitext_def
        rfind_def ascii_lower_def)

lemma item_b_consistent: "item_consistent posix (''/in/b.bin'', item_b)"
  by (simp add: item_b_def item_consistent_def posix_def posix_basename_def posix_splitext_def
        rfind_def ascii_lower_def)

lemma staged_a_consistent: "queue_consistent posix (FILE_QUEUE staged_a)"
  by (simp add: staged_a_def queue_consistent_def item_a_consistent)

lemma staged_a_b_is_dict: "is_dict (FILE_QUEUE staged_a_b)"
  by (simp add: staged_a_b_def is_dict_def)

lemma staged_a_b_consistent: "queue_consistent posix (FILE_QUEUE staged_a_b)"
  by (simp add: staged_a_b_def queue_consistent_def item_a_consistent item_b_consistent)

lemma before_b: "entries_before ''/in/b.bin'' (FILE_QUEUE staged_a_b) = [(''/in/a.TXT'', item_a)]"
  by (simp add: staged_a_b_def entries_before_def)

lemma ingest_a:
  "on_any_event posix (world_at 1000000 [(''/in/a.TXT'', 100)] [''/in'']) 2 modified_a
     (initial\<lparr>observers := [''/in'']\<rparr>) = Returns staged_a"
  by (simp add: run_defs initial_def modified_a_def staged_a_def item_a_def posix_def
        posix_basename_def posix_splitext_def rfind_def ascii_lower_def)

section \<open>The claims\<close>

text \<open>
  The hypotheses \<open>is_dict\<close> and \<open>queue_consistent\<close> of the theorems below hold of every
  state that the process reaches (\<open>reachable_invariant\<close>). That a turn of the polling thread
  comes to the entry of \<open>k\<close> is written
  \<open>raised (for_current_items w p (entries_before k (FILE_QUEUE s)) s) = None\<close>: no entry
  that the copy holds before \<open>k\<close> raises.
\<close>

text \<open>
  C1. A tracked file that is due at a turn of the polling thread and whose size, measured
  at that turn, is the size recorded at the measurement before, leaves the dictionary at
  that turn and is logged as ready exactly once: once more than before at the end of the
  turn, and no later turn of the thread logs it again.
\<close>

theorem settled_file_is_ready_once:
  assumes "is_dict (FILE_QUEUE s)" and "queue_consistent lib (FILE_QUEUE s)"
    and "map_of (FILE_QUEUE s) k = Some item"
    and "raised (for_current_items w p (entries_before k (FILE_QUEUE s)) s) = None"
    and "next_poll item \<le> now w"
    and "getsize w k = Some (file_size item)"
  shows "map_of (FILE_QUEUE (state_of (process_file_pass w p s))) k = None \<and>
         ready_count k (state_of (process_file_pass w p s)) = ready_count k s + 1 \<and>
         (\<forall>ws. ready_count k (state_of (process_file p ws (state_of (process_file_pass w p s))))
                = ready_count k s + 1)"
proof -
  let ?s' = "state_of (process_file_pass w p s)"
  note settled = pass_settled [OF assms]
  have "queue_consistent lib (FILE_QUEUE ?s')"
    using assms(2) by (rule pass_consistent)
  from process_file_untracked [OF this conjunct1 [OF settled]] settled show ?thesis by simp
qed

theorem settled_file_is_ready_once_witness:
  "map_of (FILE_QUEUE (state_of
      (process_file_pass (world_at 3000000 [(''/in/a.TXT'', 150), (''/in/b.bin'', 7)] []) 2 staged_a_b)))
     ''/in/b.bin'' = None \<and>
   ready_count ''/in/b.bin'' (state_of
      (process_file_pass (world_at 3000000 [(''/in/a.TXT'', 150), (''/in/b.bin'', 7)] []) 2 staged_a_b)) = 1 \<and>
   (\<forall>ws. ready_count ''/in/b.bin''
      (state_of (process_file 2 ws (state_of
         (process_file_pass (world_at 3000000 [(''/in/a.TXT'', 150), (''/in/b.bin'', 7)] []) 2 staged_a_b)))) = 1)"
proof -
  let ?w = "world_at 3000000 [(''/in/a.TXT'', 150), (''/in/b.bin'', 7)] []"
  have tracked: "map_of (FILE_QUEUE staged_a_b) ''/in/b.bin'' = Some item_b"
    by (simp add: staged_a_b_def)
  have reached: "raised (for_current_items ?w 2 (entries_before ''/in/b.bin'' (FILE_QUEUE staged_a_b)) staged_a_b) = None"
    by (simp add: before_b) (simp add: run_defs staged_a_b_def item_a_def)
  have due: "next_poll item_b \<le> now ?w"
    by (simp add: item_b_def world_at_def)
  have same: "getsize ?w ''/in/b.bin'' = Some (file_size item_b)"
    by (simp add: item_b_def world_at_def)
  have before: "ready_count ''/in/b.bin'' staged_a_b = 0"
    by (simp add: ready_count_def staged_a_b_def)
  from settled_file_is_ready_once [OF staged_a_b_is_dict staged_a_b_consistent tracked reached due same]
  show ?thesis
    by (simp only: before) simp
qed

text \<open>
  C2. A tracked file that is due and is found with another size than the recorded one is
  armed again by that turn: the entry stays in the dictionary with the new size and with
  \<open>next_poll\<close> at the time of the turn plus the polling time, which is later than the old
  \<open>next_poll\<close> when the polling time is positive, and nothing is logged for it. The next
  turn at which it is due and has that size again removes it and logs it as ready.
\<close>

theorem grown_file_is_rearmed_then_ready:
  assumes d: "is_dict (FILE_QUEUE s)" and c: "queue_consistent lib (FILE_QUEUE s)"
    and m: "map_of (FILE_QUEUE s) k = Some item"
    and due1: "next_poll item \<le> now w1"
    and size1: "getsize w1 k = Some n" and grown: "n \<noteq> file_size item"
    and tick1: "process_file_pass w1 p s = Returns s1"
    and r2: "raised (for_current_items w2 p (entries_before k (FILE_QUEUE s1)) s1) = None"
    and due2: "now w1 + p * 1000000 \<le> now w2"
    and size2: "getsize w2 k = Some n"
  shows "map_of (FILE_QUEUE s1) k
           = Some (item\<lparr>file_size := n, next_poll := now w1 + p * 1000000\<rparr>) \<and>
         (0 < p \<longrightarrow> next_poll item < now w1 + p * 1000000) \<and>
         ready_count k s1 = ready_count k s \<and>
         map_of (FILE_QUEUE (state_of (process_file_pass w2 p s1))) k = None \<and>
         ready_count k (state_of (process_file_pass w2 p s1)) = ready_count k s + 1"
proof -
  let ?item' = "item\<lparr>file_size := n, next_poll := now w1 + p * 1000000\<rparr>"
  note r1 = pass_returns_reaches [OF d m tick1]
  have "plus_polling_time (now w1) p \<noteq> None"
  proof
    assume "plus_polling_time (now w1) p = None"
    from pass_overflow [OF d m r1 due1 size1 grown this] tick1 show False by simp
  qed
  then obtain t where t: "plus_polling_time (now w1) p = Some t" by blast
  then have tv: "t = now w1 + p * 1000000" by (rule plus_polling_time_value)
  from pass_grown [OF d c m r1 due1 size1 grown t] tick1
  have m1: "map_of (FILE_QUEUE s1) k = Some ?item'" and rc1: "ready_count k s1 = ready_count k s"
    by (simp_all add: tv)
  have d1: "is_dict (FILE_QUEUE s1)"
    using pass_is_dict [OF d, of w1 p] tick1 by simp
  have c1: "queue_consistent lib (FILE_QUEUE s1)"
    using pass_consistent [OF c, of w1 p] tick1 by simp
  have due2': "next_poll ?item' \<le> now w2" using due2 by simp
  have size2': "getsize w2 k = Some (file_size ?item')" using size2 by simp
  from pass_settled [OF d1 c1 m1 r2 due2' size2'] m1 rc1 due1 show ?thesis by simp
qed

theorem grown_file_is_rearmed_then_ready_witness:
  "map_of (FILE_QUEUE rearmed_a) ''/in/a.TXT''
     = Some (item_a\<lparr>file_size := 150, next_poll := 5000000\<rparr>) \<and>
   next_poll item_a < 5000000 \<and>
   ready_count ''/in/a.TXT'' rearmed_a = 0 \<and>
   map_of (FILE_QUEUE (state_of (process_file_pass (world_at 5000000 [(''/in/a.TXT'', 150)] []) 2 rearmed_a)))
     ''/in/a.TXT'' = None \<and>
   ready_count ''/in/a.TXT''
     (state_of (process_file_pass (world_at 5000000 [(''/in/a.TXT'', 150)] []) 2 rearmed_a)) = 1"
proof -
  let ?w1 = "world_at 3000000 [(''/in/a.TXT'', 150)] []"
  let ?w2 = "world_at 5000000 [(''/in/a.TXT'', 150)] []"
  have tracked: "map_of (FILE_QUEUE staged_a) ''/in/a.TXT'' = Some item_a"
    by (simp add: staged_a_def)
  have due1: "next_poll item_a \<le> now ?w1"
    by (simp add: item_a_def world_at_def)
  have size1: "getsize ?w1 ''/in/a.TXT'' = Some 150"
    by (simp add: world_at_def)
  have grown: "150 \<noteq> file_size item_a"
    by (simp add: item_a_def)
  have tick1: "process_file_pass ?w1 2 staged_a = Returns rearmed_a"
    by (simp add: run_defs staged_a_def rearmed_a_def item_a_def)
  have reached2: "raised (for_current_items ?w2 2 (entries_before ''/in/a.TXT'' (FILE_QUEUE rearmed_a)) rearmed_a) = None"
    by (simp add: rearmed_a_def entries_before_def)
  have due2: "now ?w1 + 2 * 1000000 \<le> now ?w2"
    by (simp add: world_at_def)
  have size2: "getsize ?w2 ''/in/a.TXT'' = Some 150"
    by (simp add: world_at_def)
  have t: "now ?w1 + 2 * 1000000 = 5000000"
    by (simp add: world_at_def)
  have before: "ready_count ''/in/a.TXT'' staged_a = 0"
    by (simp add: ready_count_def staged_a_def)
  from grown_file_is_rearmed_then_ready [OF staged_a_is_dict staged_a_consistent tracked due1 size1
      grown tick1 reached2 due2 size2]
  show ?thesis
    by (simp only: before t) simp
qed

text \<open>
  C3. When a path is in the dictionary after a notification for it, a second notification
  for the same path, of any kind and at any time, returns the state as it is: the
  dictionary holds exactly one entry for the path, and when the first notification put
  it there, its size is the size measured at the first notification.
\<close>

theorem second_ingest_is_no_op:
  assumes d: "is_dict (FILE_QUEUE s)"
    and first: "map_of (FILE_QUEUE (state_of (on_any_event lib w1 p ev1 s))) (src_path ev1) = Some item"
    and same: "src_path ev2 = src_path ev1"
  shows "on_any_event lib w2 p ev2 (state_of (on_any_event lib w1 p ev1 s))
           = Returns (state_of (on_any_event lib w1 p ev1 s)) \<and>
         filter (\<lambda>entry. fst entry = src_path ev1) (FILE_QUEUE (state_of (on_any_event lib w1 p ev1 s)))
           = [(src_path ev1, item)] \<and>
         (map_of (FILE_QUEUE s) (src_path ev1) = None \<longrightarrow>
            getsize w1 (src_path ev1) = Some (file_size item))"
proof -
  let ?s1 = "state_of (on_any_event lib w1 p ev1 s)"
  from first same have "map_of (FILE_QUEUE ?s1) (src_path ev2) = Some item" by simp
  then have "on_any_event lib w2 p ev2 ?s1 = Returns ?s1" by (rule event_tracked)
  moreover from event_is_dict [OF d] first
  have "filter (\<lambda>entry. fst entry = src_path ev1) (FILE_QUEUE ?s1) = [(src_path ev1, item)]"
    by (rule dict_one_entry)
  moreover from event_entry [OF first]
  have "map_of (FILE_QUEUE s) (src_path ev1) = None \<longrightarrow>
        getsize w1 (src_path ev1) = Some (file_size item)" by auto
  ultimately show ?thesis by blast
qed

theorem second_ingest_is_no_op_witness:
  "on_any_event posix (world_at 1500000 [(''/in/a.TXT'', 140)] [''/in'']) 2 modified_a staged_a
     = Returns staged_a \<and>
   filter (\<lambda>entry. fst entry = ''/in/a.TXT'') (FILE_QUEUE staged_a) = [(''/in/a.TXT'', item_a)] \<and>
   getsize (world_at 1000000 [(''/in/a.TXT'', 100)] [''/in'']) ''/in/a.TXT'' = Some (file_size item_a)"
proof -
  let ?w1 = "world_at 1000000 [(''/in/a.TXT'', 100)] [''/in'']"
  let ?w2 = "world_at 1500000 [(''/in/a.TXT'', 140)] [''/in'']"
  let ?s = "initial\<lparr>observers := [''/in'']\<rparr>"
  have d: "is_dict (FILE_QUEUE ?s)"
    by (simp add: initial_def is_dict_def)
  have first: "map_of (FILE_QUEUE (state_of (on_any_event posix ?w1 2 modified_a ?s))) (src_path modified_a)
      = Some item_a"
    by (simp add: ingest_a) (simp add: staged_a_def modified_a_def)
  have untracked: "map_of (FILE_QUEUE ?s) (src_path modified_a) = None"
    by (simp add: initial_def)
  have path: "src_path modified_a = ''/in/a.TXT''"
    by (simp add: modified_a_def)
  from second_ingest_is_no_op [OF d first refl, of ?w2] untracked
  show ?thesis by (simp add: ingest_a path)
qed

text \<open>
  C4. An entry whose \<open>next_poll\<close> is later than the time of a turn is the same after the
  turn, and the turn does not read the size of its file: whatever \<^verbatim>\<open>os.path.getsize\<close>
  would answer for the path, a value or an error, the outcome of the turn is the same.
\<close>

theorem entry_not_due_is_skipped:
  assumes d: "is_dict (FILE_QUEUE s)" and m: "map_of (FILE_QUEUE s) k = Some item"
    and early: "now w < next_poll item"
  shows "map_of (FILE_QUEUE (state_of (process_file_pass w p s))) k = Some item \<and>
         (\<forall>r. process_file_pass (w\<lparr>getsize := (getsize w)(k := r)\<rparr>) p s = process_file_pass w p s)"
proof -
  have skip: "\<forall>entry \<in> set (FILE_QUEUE s). fst entry = k \<longrightarrow> now w < next_poll (snd entry)"
    using dict_entries_of_key [OF d m] early by blast
  from for_not_due_unchanged [OF skip, of p s] m
  have "map_of (FILE_QUEUE (state_of (process_file_pass w p s))) k = Some item"
    by (simp add: process_file_pass_def)
  moreover from for_getsize_irrelevant [OF skip]
  have "\<forall>r. process_file_pass (w\<lparr>getsize := (getsize w)(k := r)\<rparr>) p s = process_file_pass w p s"
    by (simp add: process_file_pass_def)
  ultimately show ?thesis ..
qed

theorem entry_not_due_is_skipped_witness:
  "map_of (FILE_QUEUE (state_of (process_file_pass (world_at 2999999 [(''/in/a.TXT'', 100)] []) 2 staged_a)))
     ''/in/a.TXT'' = Some item_a \<and>
   (\<forall>r. process_file_pass
          ((world_at 2999999 [(''/in/a.TXT'', 100)] [])
             \<lparr>getsize := (getsize (world_at 2999999 [(''/in/a.TXT'', 100)] []))(''/in/a.TXT'' := r)\<rparr>)
          2 staged_a
        = process_file_pass (world_at 2999999 [(''/in/a.TXT'', 100)] []) 2 staged_a)"
proof -
  have tracked: "map_of (FILE_QUEUE staged_a) ''/in/a.TXT'' = Some item_a"
    by (simp add: staged_a_def)
  have early: "now (world_at 2999999 [(''/in/a.TXT'', 100)] []) < next_poll item_a"
    by (simp add: world_at_def item_a_def)
  show ?thesis
    by (rule entry_not_due_is_skipped [OF staged_a_is_dict tracked early])
qed

text \<open>
  C5, as the claim states it, fails: a modification of a file that has vanished when the
  handler reads its size is not dropped silently. The handler has logged the line
  \<^verbatim>\<open>Adding to queue\<close> and the \<^verbatim>\<open>OSError\<close> of \<^verbatim>\<open>os.path.getsize\<close> leaves it.
\<close>

theorem vanished_file_raises_counterexample:
  "raised (on_any_event posix (world_at 1000000 [] [''/in'']) 2 modified_a initial)
     = Some (OSError ''/in/a.TXT'') \<and>
   logger (state_of (on_any_event posix (world_at 1000000 [] [''/in'']) 2 modified_a initial))
     = [Info_adding_to_queue ''/in/a.TXT'']"
  by (simp add: run_defs initial_def modified_a_def)

text \<open>
  C5, amended. For a modification of a file whose path is not in the dictionary and whose
  size cannot be read, the handler raises \<^verbatim>\<open>OSError\<close> to its caller after logging
  \<^verbatim>\<open>Adding to queue\<close>; the path does not enter the dictionary, which stays as it was.
\<close>

theorem vanished_file_is_not_staged:
  assumes "\<not> is_directory ev" and "event_type ev = ''modified''"
    and "map_of (FILE_QUEUE s) (src_path ev) = None"
    and "getsize w (src_path ev) = None"
  shows "raised (on_any_event lib w p ev s) = Some (OSError (src_path ev)) \<and>
         FILE_QUEUE (state_of (on_any_event lib w p ev s)) = FILE_QUEUE s \<and>
         logger (state_of (on_any_event lib w p ev s))
           = logger s @ [Info_adding_to_queue (src_path ev)]"
  by (simp add: event_vanished [OF assms])

theorem vanished_file_is_not_staged_witness:
  "raised (on_any_event posix (world_at 1000000 [] [''/in'']) 2 modified_a initial)
     = Some (OSError (src_path modified_a)) \<and>
   FILE_QUEUE (state_of (on_any_event posix (world_at 1000000 [] [''/in'']) 2 modified_a initial))
     = FILE_QUEUE initial \<and>
   logger (state_of (on_any_event posix (world_at 1000000 [] [''/in'']) 2 modified_a initial))
     = logger initial @ [Info_adding_to_queue (src_path modified_a)]"
proof -
  have nodir: "\<not> is_directory modified_a" and kind: "event_type modified_a = ''modified''"
    by (simp_all add: modified_a_def)
  have untracked: "map_of (FILE_QUEUE initial) (src_path modified_a) = None"
    by (simp add: initial_def)
  have gone: "getsize (world_at 1000000 [] [''/in'']) (src_path modified_a) = None"
    by (simp add: world_at_def)
  show ?thesis
    by (rule vanished_file_is_not_staged [OF nodir kind untracked gone])
qed

text \<open>
  C6, as the claim states it, fails: with \<^verbatim>\<open>/in/a.TXT\<close> gone from the disk and
  \<^verbatim>\<open>/in/b.bin\<close> due with its recorded size, the first turn raises at \<^verbatim>\<open>/in/a.TXT\<close>
  and ends the thread. The second turn does not run, \<^verbatim>\<open>/in/a.TXT\<close> is not tried again,
  and \<^verbatim>\<open>/in/b.bin\<close> is never logged as ready.
\<close>

theorem vanished_entry_is_retried_counterexample:
  "process_file 2 [world_at 3000000 [(''/in/b.bin'', 7)] [], world_at 4000000 [(''/in/b.bin'', 7)] []]
     staged_a_b = Raises (OSError ''/in/a.TXT'') staged_a_b"
  by (simp add: run_defs staged_a_b_def item_a_def item_b_def)

text \<open>
  C6, amended. When the size of a due entry cannot be read, the turn leaves the entry in
  the dictionary as it was and raises \<^verbatim>\<open>OSError\<close>, which ends the turn and the thread:
  whatever turns would follow, the outcome of the thread is the outcome of this turn, and
  the entry and the entries behind it are as before the turn, none of them logged as ready.
\<close>

theorem vanished_entry_ends_the_thread:
  assumes d: "is_dict (FILE_QUEUE s)" and c: "queue_consistent lib (FILE_QUEUE s)"
    and m: "map_of (FILE_QUEUE s) k = Some item"
    and r: "raised (for_current_items w p (entries_before k (FILE_QUEUE s)) s) = None"
    and due: "next_poll item \<le> now w"
    and gone: "getsize w k = None"
  shows "raised (process_file_pass w p s) = Some (OSError k) \<and>
         (\<forall>ws. process_file p (w # ws) s = process_file_pass w p s) \<and>
         (\<forall>k'. k' \<notin> fst ` set (entries_before k (FILE_QUEUE s)) \<longrightarrow>
            map_of (FILE_QUEUE (state_of (process_file_pass w p s))) k' = map_of (FILE_QUEUE s) k' \<and>
            ready_count k' (state_of (process_file_pass w p s)) = ready_count k' s)"
proof (rule pass_reaches [OF d m r])
  fix s1 post
  assume split: "entries_before k (FILE_QUEUE s) @ (k, item) # post = FILE_QUEUE s"
    and s1: "for_current_items w p (entries_before k (FILE_QUEUE s)) s = Returns s1"
    and pass: "process_file_pass w p s =
       (case check_queued_file w p (k, item) s1 of
          Returns s2 \<Rightarrow> for_current_items w p post s2
        | Raises e s2 \<Rightarrow> Raises e s2)"
  have chk: "check_queued_file w p (k, item) s1 = Raises (OSError k) s1"
    using check_vanished [of "(k, item)" w p s1] due gone by simp
  have pass2: "process_file_pass w p s = Raises (OSError k) s1"
    by (simp add: pass chk)
  have untouched: "map_of (FILE_QUEUE s1) k' = map_of (FILE_QUEUE s) k' \<and>
      ready_count k' s1 = ready_count k' s"
    if k': "k' \<notin> fst ` set (entries_before k (FILE_QUEUE s))" for k'
  proof -
    have sub: "set (entries_before k (FILE_QUEUE s)) \<subseteq> set (FILE_QUEUE s)"
      using split [symmetric] by (metis set_append sup_ge1)
    have "\<forall>x \<in> set (entries_before k (FILE_QUEUE s)). file_path (snd x) \<noteq> k'"
    proof
      fix x assume x: "x \<in> set (entries_before k (FILE_QUEUE s))"
      with sub have "file_path (snd x) = fst x" by (blast intro: consistent_file_path [OF c])
      moreover from x k' have "fst x \<noteq> k'" by blast
      ultimately show "file_path (snd x) \<noteq> k'" by simp
    qed
    from for_ready_count [OF this, of w p s] for_other_key [OF k', of w p s] s1
    show ?thesis by simp
  qed
  show ?thesis
    by (simp add: pass2 untouched)
qed

theorem vanished_entry_ends_the_thread_witness:
  "raised (process_file_pass (world_at 3000000 [(''/in/a.TXT'', 100)] []) 2 staged_a_b)
     = Some (OSError ''/in/b.bin'') \<and>
   (\<forall>ws. process_file 2 (world_at 3000000 [(''/in/a.TXT'', 100)] [] # ws) staged_a_b
        = process_file_pass (world_at 3000000 [(''/in/a.TXT'', 100)] []) 2 staged_a_b) \<and>
   map_of (FILE_QUEUE (state_of (process_file_pass (world_at 3000000 [(''/in/a.TXT'', 100)] []) 2 staged_a_b)))
     ''/in/b.bin'' = Some item_b \<and>
   ready_count ''/in/b.bin''
     (state_of (process_file_pass (world_at 3000000 [(''/in/a.TXT'', 100)] []) 2 staged_a_b)) = 0"
proof -
  let ?w = "world_at 3000000 [(''/in/a.TXT'', 100)] []"
  have tracked: "map_of (FILE_QUEUE staged_a_b) ''/in/b.bin'' = Some item_b"
    by (simp add: staged_a_b_def)
  have reached: "raised (for_current_items ?w 2 (entries_before ''/in/b.bin'' (FILE_QUEUE staged_a_b)) staged_a_b) = None"
    by (simp add: before_b) (simp add: run_defs staged_a_b_def item_a_def)
  have due: "next_poll item_b \<le> now ?w"
    by (simp add: item_b_def world_at_def)
  have gone: "getsize ?w ''/in/b.bin'' = None"
    by (simp add: world_at_def)
  have behind: "''/in/b.bin'' \<notin> fst ` set (entries_before ''/in/b.bin'' (FILE_QUEUE staged_a_b))"
    by (simp add: before_b)
  have logged: "ready_count ''/in/b.bin'' staged_a_b = 0"
    by (simp add: ready_count_def staged_a_b_def)
  from vanished_entry_ends_the_thread [OF staged_a_b_is_dict staged_a_b_consistent tracked reached due gone]
    behind tracked logged
  show ?thesis by simp
qed

text \<open>
  C7. A notification for a directory, or of another kind than \<^verbatim>\<open>modified\<close>, returns the
  state as it is; so the handler changes the dictionary only for a modification of a file.
\<close>

theorem only_file_modifications_are_staged:
  "(is_directory ev \<or> event_type ev \<noteq> ''modified'' \<longrightarrow> on_any_event lib w p ev s = Returns s) \<and>
   (FILE_QUEUE (state_of (on_any_event lib w p ev s)) \<noteq> FILE_QUEUE s \<longrightarrow>
      \<not> is_directory ev \<and> event_type ev = ''modified'')"
proof (cases "is_directory ev \<or> event_type ev \<noteq> ''modified''")
  case True
  then have "on_any_event lib w p ev s = Returns s" by (rule event_ignored)
  then show ?thesis by simp
next
  case False
  then show ?thesis by simp
qed

theorem only_file_modifications_are_staged_witness:
  "on_any_event posix (world_at 1000000 [(''/in/a.TXT'', 100)] [''/in'']) 2
     (modified_a\<lparr>event_type := ''created''\<rparr>) initial = Returns initial \<and>
   on_any_event posix (world_at 1000000 [(''/in/a.TXT'', 100)] [''/in'']) 2
     (modified_a\<lparr>is_directory := True\<rparr>) initial = Returns initial \<and>
   \<not> is_directory modified_a \<and> event_type modified_a = ''modified''"
proof -
  let ?w = "world_at 1000000 [(''/in/a.TXT'', 100)] [''/in'']"
  have created: "is_directory (modified_a\<lparr>event_type := ''created''\<rparr>) \<or>
      event_type (modified_a\<lparr>event_type := ''created''\<rparr>) \<noteq> ''modified''"
    by simp
  have directory: "is_directory (modified_a\<lparr>is_directory := True\<rparr>) \<or>
      event_type (modified_a\<lparr>is_directory := True\<rparr>) \<noteq> ''modified''"
    by simp
  have staged: "FILE_QUEUE (state_of (on_any_event posix ?w 2 modified_a initial)) \<noteq> FILE_QUEUE initial"
    by (simp add: run_defs initial_def modified_a_def)
  from only_file_modifications_are_staged [of "modified_a\<lparr>event_type := ''created''\<rparr>" posix ?w 2 initial]
    only_file_modifications_are_staged [of "modified_a\<lparr>is_directory := True\<rparr>" posix ?w 2 initial]
    only_file_modifications_are_staged [of modified_a posix ?w 2 initial]
    created directory staged
  show ?thesis by blast
qed

text \<open>
  C8. Whenever \<open>next_poll\<close> is set, it is set to the time of the step plus the polling
  time (in microseconds, the polling time being in seconds). A modification of a file that
  is not in the dictionary and whose size can be read stages it with \<open>next_poll\<close> at the
  time of the call plus the polling time. A turn of the thread that comes to a due entry
  and finds another size stores the time of the turn plus the polling time as its
  \<open>next_poll\<close>; when that sum is no \<^verbatim>\<open>datetime\<close>, the turn raises \<^verbatim>\<open>OverflowError\<close> with
  the new size stored and \<open>next_poll\<close> as it was. And \<open>next_poll\<close> is set to nothing else:
  an entry in the dictionary after a call of the handler was there before, or is new with
  that value; an entry in the dictionary after a turn was there before, and its
  \<open>next_poll\<close> is the old one or that value.
\<close>

theorem next_poll_is_now_plus_polling_time:
  "(map_of (FILE_QUEUE (state_of (on_any_event lib w p ev s))) k = Some item' \<longrightarrow>
      map_of (FILE_QUEUE s) k = Some item' \<or>
      map_of (FILE_QUEUE s) k = None \<and> next_poll item' = now w + p * 1000000) \<and>
   (map_of (FILE_QUEUE (state_of (process_file_pass w p s))) k = Some item' \<longrightarrow>
      (\<exists>item. map_of (FILE_QUEUE s) k = Some item \<and>
         (next_poll item' = next_poll item \<or> next_poll item' = now w + p * 1000000))) \<and>
   (\<not> is_directory ev \<and> event_type ev = ''modified'' \<and>
    map_of (FILE_QUEUE s) (src_path ev) = None \<and> getsize w (src_path ev) = Some n \<and>
    plus_polling_time (now w) p \<noteq> None \<longrightarrow>
      raised (on_any_event lib w p ev s) = None \<and>
      map_option next_poll (map_of (FILE_QUEUE (state_of (on_any_event lib w p ev s))) (src_path ev))
        = Some (now w + p * 1000000)) \<and>
   (is_dict (FILE_QUEUE s) \<and> map_of (FILE_QUEUE s) k = Some item \<and>
    raised (for_current_items w p (entries_before k (FILE_QUEUE s)) s) = None \<and>
    next_poll item \<le> now w \<and> getsize w k = Some n \<and> n \<noteq> file_size item \<longrightarrow>
      (plus_polling_time (now w) p \<noteq> None \<longrightarrow>
         map_of (FILE_QUEUE (state_of (process_file_pass w p s))) k
           = Some (item\<lparr>file_size := n, next_poll := now w + p * 1000000\<rparr>)) \<and>
      (plus_polling_time (now w) p = None \<longrightarrow>
         raised (process_file_pass w p s) = Some OverflowError \<and>
         map_of (FILE_QUEUE (state_of (process_file_pass w p s))) k
           = Some (item\<lparr>file_size := n\<rparr>)))"
proof (intro conjI impI)
  assume "map_of (FILE_QUEUE (state_of (on_any_event lib w p ev s))) k = Some item'"
  from event_entry [OF this]
  show "map_of (FILE_QUEUE s) k = Some item' \<or>
        map_of (FILE_QUEUE s) k = None \<and> next_poll item' = now w + p * 1000000"
    by blast
next
  assume after: "map_of (FILE_QUEUE (state_of (process_file_pass w p s))) k = Some item'"
  then have "k \<in> fst ` set (FILE_QUEUE (state_of (process_file_pass w p s)))"
    by (metis map_of_eq_None_iff option.distinct(1))
  with pass_keys [of w p s] have "k \<in> fst ` set (FILE_QUEUE s)" by blast
  then obtain item where item: "map_of (FILE_QUEUE s) k = Some item"
    by (metis map_of_eq_None_iff not_Some_eq)
  from after have "map_of (FILE_QUEUE (state_of (for_current_items w p (FILE_QUEUE s) s))) k = Some item'"
    by (simp add: process_file_pass_def)
  from for_next_poll [OF this] item
  have "next_poll item' = next_poll item \<or> next_poll item' = now w + p * 1000000"
    by auto
  with item show "\<exists>item. map_of (FILE_QUEUE s) k = Some item \<and>
         (next_poll item' = next_poll item \<or> next_poll item' = now w + p * 1000000)"
    by blast
next
  assume a: "\<not> is_directory ev \<and> event_type ev = ''modified'' \<and>
    map_of (FILE_QUEUE s) (src_path ev) = None \<and> getsize w (src_path ev) = Some n \<and>
    plus_polling_time (now w) p \<noteq> None"
  then obtain t where t: "plus_polling_time (now w) p = Some t" by blast
  then have tv: "t = now w + p * 1000000" by (rule plus_polling_time_value)
  from a t have st: "on_any_event lib w p ev s =
     Returns (s\<lparr>logger := logger s @ [Info_adding_to_queue (src_path ev)],
                FILE_QUEUE :=
                  AList.update (src_path ev)
                    \<lparr>file_path = src_path ev,
                     file_size = n,
                     file_name = basename lib (src_path ev),
                     file_extention = lower lib (snd (splitext lib (src_path ev))),
                     next_poll = t\<rparr>
                    (FILE_QUEUE s)\<rparr>)"
    by (intro event_staged) simp_all
  show "raised (on_any_event lib w p ev s) = None" by (simp add: st)
  show "map_option next_poll (map_of (FILE_QUEUE (state_of (on_any_event lib w p ev s))) (src_path ev))
        = Some (now w + p * 1000000)"
    by (simp add: st update_conv' tv)
next
  assume a: "is_dict (FILE_QUEUE s) \<and> map_of (FILE_QUEUE s) k = Some item \<and>
    raised (for_current_items w p (entries_before k (FILE_QUEUE s)) s) = None \<and>
    next_poll item \<le> now w \<and> getsize w k = Some n \<and> n \<noteq> file_size item"
  assume "plus_polling_time (now w) p \<noteq> None"
  then obtain t where t: "plus_polling_time (now w) p = Some t" by blast
  then have tv: "t = now w + p * 1000000" by (rule plus_polling_time_value)
  from a t have "map_of (FILE_QUEUE (state_of (process_file_pass w p s))) k
           = Some (item\<lparr>file_size := n, next_poll := t\<rparr>)"
    by (intro pass_rearmed) simp_all
  then show "map_of (FILE_QUEUE (state_of (process_file_pass w p s))) k
           = Some (item\<lparr>file_size := n, next_poll := now w + p * 1000000\<rparr>)"
    by (simp add: tv)
next
  assume a: "is_dict (FILE_QUEUE s) \<and> map_of (FILE_QUEUE s) k = Some item \<and>
    raised (for_current_items w p (entries_before k (FILE_QUEUE s)) s) = None \<and>
    next_poll item \<le> now w \<and> getsize w k = Some n \<and> n \<noteq> file_size item"
  assume t: "plus_polling_time (now w) p = None"
  from a t show "raised (process_file_pass w p s) = Some OverflowError"
    by (intro pass_overflow [where item = item and n = n and k = k]) simp_all
next
  assume a: "is_dict (FILE_QUEUE s) \<and> map_of (FILE_QUEUE s) k = Some item \<and>
    raised (for_current_items w p (entries_before k (FILE_QUEUE s)) s) = None \<and>
    next_poll item \<le> now w \<and> getsize w k = Some n \<and> n \<noteq> file_size item"
  assume t: "plus_polling_time (now w) p = None"
  from a t show "map_of (FILE_QUEUE (state_of (process_file_pass w p s))) k
           = Some (item\<lparr>file_size := n\<rparr>)"
    by (intro pass_overflow_entry) simp_all
qed


theorem next_poll_is_now_plus_polling_time_witness:
  "raised (on_any_event posix (world_at 1000000 [(''/in/a.TXT'', 100)] [''/in'']) 2 modified_a initial) = None \<and>
   map_option next_poll
     (map_of (FILE_QUEUE (state_of
        (on_any_event posix (world_at 1000000 [(''/in/a.TXT'', 100)] [''/in'']) 2 modified_a initial)))
        ''/in/a.TXT'') = Some 3000000 \<and>
   map_of (FILE_QUEUE (state_of (process_file_pass (world_at 3000000 [(''/in/a.TXT'', 150)] []) 2 staged_a)))
     ''/in/a.TXT'' = Some (item_a\<lparr>file_size := 150, next_poll := 5000000\<rparr>) \<and>
   raised (process_file_pass (world_at datetime_max [(''/in/a.TXT'', 150)] []) 2 staged_a)
     = Some OverflowError \<and>
   map_of (FILE_QUEUE (state_of (process_file_pass (world_at datetime_max [(''/in/a.TXT'', 150)] []) 2 staged_a)))
     ''/in/a.TXT'' = Some (item_a\<lparr>file_size := 150\<rparr>)"
proof -
  let ?w0 = "world_at 1000000 [(''/in/a.TXT'', 100)] [''/in'']"
  let ?w1 = "world_at 3000000 [(''/in/a.TXT'', 150)] []"
  let ?w2 = "world_at datetime_max [(''/in/a.TXT'', 150)] []"
  have path: "src_path modified_a = ''/in/a.TXT''"
    by (simp add: modified_a_def)
  have t0: "now ?w0 + 2 * 1000000 = 3000000" and t1: "now ?w1 + 2 * 1000000 = 5000000"
    by (simp_all add: world_at_def)
  have notified: "\<not> is_directory modified_a \<and> event_type modified_a = ''modified'' \<and>
      map_of (FILE_QUEUE initial) (src_path modified_a) = None \<and>
      getsize ?w0 (src_path modified_a) = Some 100 \<and> plus_polling_time (now ?w0) 2 \<noteq> None"
    by (simp add: modified_a_def initial_def world_at_def plus_polling_time_def timedelta_def
          datetime_add_def datetime_max_def)
  have reached: "raised (for_current_items w 2 (entries_before ''/in/a.TXT'' (FILE_QUEUE staged_a)) staged_a) = None"
    for w
    by (simp add: staged_a_def entries_before_def)
  have grown: "is_dict (FILE_QUEUE staged_a) \<and> map_of (FILE_QUEUE staged_a) ''/in/a.TXT'' = Some item_a \<and>
      raised (for_current_items w 2 (entries_before ''/in/a.TXT'' (FILE_QUEUE staged_a)) staged_a) = None \<and>
      next_poll item_a \<le> now w \<and> getsize w ''/in/a.TXT'' = Some 150 \<and> 150 \<noteq> file_size item_a"
    if "now w = 3000000 \<or> now w = datetime_max" "getsize w ''/in/a.TXT'' = Some 150" for w
    using that reached [of w] staged_a_is_dict
    by (auto simp: staged_a_def item_a_def datetime_max_def)
  have grown1: "is_dict (FILE_QUEUE staged_a) \<and> map_of (FILE_QUEUE staged_a) ''/in/a.TXT'' = Some item_a \<and>
      raised (for_current_items ?w1 2 (entries_before ''/in/a.TXT'' (FILE_QUEUE staged_a)) staged_a) = None \<and>
      next_poll item_a \<le> now ?w1 \<and> getsize ?w1 ''/in/a.TXT'' = Some 150 \<and> 150 \<noteq> file_size item_a"
    by (rule grown) (simp_all add: world_at_def)
  have grown2: "is_dict (FILE_QUEUE staged_a) \<and> map_of (FILE_QUEUE staged_a) ''/in/a.TXT'' = Some item_a \<and>
      raised (for_current_items ?w2 2 (entries_before ''/in/a.TXT'' (FILE_QUEUE staged_a)) staged_a) = None \<and>
      next_poll item_a \<le> now ?w2 \<and> getsize ?w2 ''/in/a.TXT'' = Some 150 \<and> 150 \<noteq> file_size item_a"
    by (rule grown) (simp_all add: world_at_def)
  have fits: "plus_polling_time (now ?w1) 2 \<noteq> None"
    by (simp add: world_at_def plus_polling_time_def timedelta_def datetime_add_def datetime_max_def)
  have late: "plus_polling_time (now ?w2) 2 = None"
    by (simp add: world_at_def plus_polling_time_def timedelta_def datetime_add_def datetime_max_def)
  note staged = next_poll_is_now_plus_polling_time [of posix ?w0 2 modified_a initial _ _ 100,
      THEN conjunct2, THEN conjunct2, THEN conjunct1, THEN mp, OF notified]
  note rearmed = next_poll_is_now_plus_polling_time [of _ ?w1 2 _ staged_a "''/in/a.TXT''" _ 150 item_a,
      THEN conjunct2, THEN conjunct2, THEN conjunct2, THEN mp, OF grown1,
      THEN conjunct1, THEN mp, OF fits]
  note overflow = next_poll_is_now_plus_polling_time [of _ ?w2 2 _ staged_a "''/in/a.TXT''" _ 150 item_a,
      THEN conjunct2, THEN conjunct2, THEN conjunct2, THEN mp, OF grown2,
      THEN conjunct2, THEN mp, OF late]
  from staged have "raised (on_any_event posix ?w0 2 modified_a initial) = None"
    by (rule conjunct1)
  moreover from staged have "map_option next_poll
     (map_of (FILE_QUEUE (state_of (on_any_event posix ?w0 2 modified_a initial))) ''/in/a.TXT'')
       = Some 3000000"
    by (simp only: path t0)
  moreover from rearmed have "map_of (FILE_QUEUE (state_of (process_file_pass ?w1 2 staged_a))) ''/in/a.TXT''
      = Some (item_a\<lparr>file_size := 150, next_poll := 5000000\<rparr>)"
    by (simp only: t1)
  moreover note overflow [THEN conjunct1] overflow [THEN conjunct2]
  ultimately show ?thesis by (intro conjI)
qed

text \<open>
  C9. With a list of directories, the loop of \<^verbatim>\<open>main\<close> raises nothing: it starts an
  observer for exactly the directories that exist, in their order, and logs it, and for each
  directory that does not exist it logs the error and goes on.
\<close>

theorem missing_directory_is_skipped:
  "raised (main w (Some dirs) s) = None \<and>
   observers (state_of (main w (Some dirs) s)) = observers s @ filter (path_exists w) dirs \<and>
   (\<forall>d \<in> set dirs. \<not> path_exists w d \<longrightarrow>
      Error_does_not_exist d \<in> set (logger (state_of (main w (Some dirs) s)))) \<and>
   (\<forall>d \<in> set dirs. path_exists w d \<longrightarrow>
      d \<in> set (observers (state_of (main w (Some dirs) s))) \<and>
      Info_adding_monitor d \<in> set (logger (state_of (main w (Some dirs) s))))"
proof -
  let ?line = "\<lambda>d. if path_exists w d then Info_adding_monitor d else Error_does_not_exist d"
  have ret: "main w (Some dirs) s = Returns (monitor_directories w dirs s)"
    by (simp add: main_def)
  have obs: "observers (state_of (main w (Some dirs) s)) = observers s @ filter (path_exists w) dirs"
    by (simp add: ret monitor_directories_observers)
  have log: "logger (state_of (main w (Some dirs) s)) = logger s @ map ?line dirs"
    by (simp add: ret monitor_directories_logger)
  have missing: "Error_does_not_exist d \<in> set (logger (state_of (main w (Some dirs) s)))"
    if "d \<in> set dirs" "\<not> path_exists w d" for d
  proof -
    from that(1) have "?line d \<in> set (map ?line dirs)" unfolding set_map by (rule imageI)
    with that(2) show ?thesis by (simp add: log)
  qed
  have present: "d \<in> set (observers (state_of (main w (Some dirs) s))) \<and>
      Info_adding_monitor d \<in> set (logger (state_of (main w (Some dirs) s)))"
    if "d \<in> set dirs" "path_exists w d" for d
  proof -
    from that(1) have "?line d \<in> set (map ?line dirs)" unfolding set_map by (rule imageI)
    with that show ?thesis by (simp add: log obs)
  qed
  from ret obs missing present show ?thesis by simp
qed

theorem missing_directory_is_skipped_witness:
  "raised (main (world_at 0 [] [''/in'', ''/out'']) (Some [''/in'', ''/gone'', ''/out'']) initial) = None \<and>
   observers (state_of (main (world_at 0 [] [''/in'', ''/out'']) (Some [''/in'', ''/gone'', ''/out'']) initial))
     = [''/in'', ''/out''] \<and>
   Error_does_not_exist ''/gone''
     \<in> set (logger (state_of (main (world_at 0 [] [''/in'', ''/out'']) (Some [''/in'', ''/gone'', ''/out'']) initial))) \<and>
   ''/out'' \<in> set (observers (state_of (main (world_at 0 [] [''/in'', ''/out'']) (Some [''/in'', ''/gone'', ''/out'']) initial)))"
proof -
  let ?w = "world_at 0 [] [''/in'', ''/out'']"
  let ?dirs = "[''/in'', ''/gone'', ''/out'']"
  note t = missing_directory_is_skipped [of ?w ?dirs initial]
  have ex: "observers initial @ filter (path_exists ?w) ?dirs = [''/in'', ''/out'']"
    by (simp add: world_at_def initial_def)
  have gone: "''/gone'' \<in> set ?dirs" "\<not> path_exists ?w ''/gone''"
    by (simp_all add: world_at_def)
  have out: "''/out'' \<in> set ?dirs" "path_exists ?w ''/out''"
    by (simp_all add: world_at_def)
  from t have "raised (main ?w (Some ?dirs) initial) = None" by (rule conjunct1)
  moreover from t [THEN conjunct2, THEN conjunct1]
  have "observers (state_of (main ?w (Some ?dirs) initial)) = [''/in'', ''/out'']"
    by (simp only: ex)
  moreover from t [THEN conjunct2, THEN conjunct2, THEN conjunct1, THEN bspec, OF gone(1), THEN mp, OF gone(2)]
  have "Error_does_not_exist ''/gone'' \<in> set (logger (state_of (main ?w (Some ?dirs) initial)))" .
  moreover from t [THEN conjunct2, THEN conjunct2, THEN conjunct2, THEN bspec, OF out(1), THEN mp, OF out(2)]
  have "''/out'' \<in> set (observers (state_of (main ?w (Some ?dirs) initial)))" by (rule conjunct1)
  ultimately show ?thesis by (intro conjI)
qed

text \<open>
  C10. In the empty dictionary, and after every step from a state in which it holds, each
  entry has its key as \<open>file_path\<close>, the base name of the key as \<open>file_name\<close> and the
  extension of the key in lower case as \<open>file_extention\<close>; \<^verbatim>\<open>main\<close> does not touch the
  dictionary. Arming an entry again keeps the keys of the dictionary and changes only
  \<open>file_size\<close> and \<open>next_poll\<close> of the entry.
\<close>

theorem queue_stays_consistent:
  assumes c: "queue_consistent lib (FILE_QUEUE s)"
  shows "queue_consistent lib (FILE_QUEUE initial) \<and>
         queue_consistent lib (FILE_QUEUE (state_of (on_any_event lib w p ev s))) \<and>
         queue_consistent lib (FILE_QUEUE (state_of (process_file_pass w p s))) \<and>
         FILE_QUEUE (state_of (main w dirs s)) = FILE_QUEUE s \<and>
         (map_of (FILE_QUEUE s) k = Some item \<and> next_poll item \<le> now w \<and>
          getsize w k = Some n \<and> n \<noteq> file_size item \<and> plus_polling_time (now w) p = Some t \<longrightarrow>
            map fst (FILE_QUEUE (state_of (check_queued_file w p (k, item) s))) = map fst (FILE_QUEUE s) \<and>
            map_of (FILE_QUEUE (state_of (check_queued_file w p (k, item) s))) k
              = Some (item\<lparr>file_size := n, next_poll := t\<rparr>))"
proof -
  have "queue_consistent lib (FILE_QUEUE initial)"
    by (simp add: queue_consistent_def initial_def)
  moreover note event_consistent [OF c, of w p ev] pass_consistent [OF c, of w p]
  moreover have "FILE_QUEUE (state_of (main w dirs s)) = FILE_QUEUE s"
    by (cases dirs) (simp_all add: main_def monitor_directories_queue)
  moreover have "map fst (FILE_QUEUE (state_of (check_queued_file w p (k, item) s))) = map fst (FILE_QUEUE s) \<and>
      map_of (FILE_QUEUE (state_of (check_queued_file w p (k, item) s))) k
        = Some (item\<lparr>file_size := n, next_poll := t\<rparr>)"
    if "map_of (FILE_QUEUE s) k = Some item" "next_poll item \<le> now w" "getsize w k = Some n"
      "n \<noteq> file_size item" "plus_polling_time (now w) p = Some t"
    using check_grown [of "(k, item)" w n p t s] that
    by (simp add: map_fst_update_present update_conv')
  ultimately show ?thesis by blast
qed

theorem queue_stays_consistent_witness:
  "queue_consistent posix (FILE_QUEUE initial) \<and>
   queue_consistent posix (FILE_QUEUE (state_of
     (on_any_event posix (world_at 3000000 [(''/in/a.TXT'', 150), (''/in/b.bin'', 7)] []) 2
        (modified_a\<lparr>src_path := ''/in/b.bin''\<rparr>) staged_a))) \<and>
   queue_consistent posix (FILE_QUEUE (state_of
     (process_file_pass (world_at 3000000 [(''/in/a.TXT'', 150), (''/in/b.bin'', 7)] []) 2 staged_a))) \<and>
   FILE_QUEUE (state_of (main (world_at 3000000 [(''/in/a.TXT'', 150), (''/in/b.bin'', 7)] []) None staged_a))
     = FILE_QUEUE staged_a \<and>
   map fst (FILE_QUEUE (state_of (check_queued_file
      (world_at 3000000 [(''/in/a.TXT'', 150), (''/in/b.bin'', 7)] []) 2 (''/in/a.TXT'', item_a) staged_a)))
     = map fst (FILE_QUEUE staged_a) \<and>
   map_of (FILE_QUEUE (state_of (check_queued_file
      (world_at 3000000 [(''/in/a.TXT'', 150), (''/in/b.bin'', 7)] []) 2 (''/in/a.TXT'', item_a) staged_a)))
      ''/in/a.TXT''
     = Some (item_a\<lparr>file_size := 150, next_poll := 5000000\<rparr>)"
proof -
  let ?w = "world_at 3000000 [(''/in/a.TXT'', 150), (''/in/b.bin'', 7)] []"
  have rearm: "map_of (FILE_QUEUE staged_a) ''/in/a.TXT'' = Some item_a \<and> next_poll item_a \<le> now ?w \<and>
      getsize ?w ''/in/a.TXT'' = Some 150 \<and> 150 \<noteq> file_size item_a \<and>
      plus_polling_time (now ?w) 2 = Some 5000000"
    by (simp add: run_defs staged_a_def item_a_def)
  from queue_stays_consistent [OF staged_a_consistent, of ?w 2 "modified_a\<lparr>src_path := ''/in/b.bin''\<rparr>"
      None "''/in/a.TXT''" item_a 150 5000000] rearm
  show ?thesis by blast
qed

end
